theory Spec2Isabelle
  imports Complex_Main "HOL-Library.Multiset"
begin

section \<open>The memory game of script.js as an event-driven state machine\<close>

text \<open>
  The game keeps its state in module-level variables and in the class lists of the card
  elements it creates. Card elements are objects with identity: the closure that
  \<open>handleMismatch\<close> hands to \<open>setTimeout\<close> keeps the two elements it was called with, also
  after \<open>createBoard\<close> has replaced the board. The model therefore has an explicit store
  of card elements (\<open>heap\<close>, from addresses to elements) and refers to cards by address.

  Of an element only what the game logic reads is kept: \<open>dataset.icon\<close> and the
  membership of the classes \<open>flipped\<close> and \<open>matched\<close> in its class list. Inline styles,
  the tilt listeners and the entrance and shake animations never touch these and are left
  out. JavaScript numbers are modelled as natural numbers (the counters only ever grow by
  one or two from zero).
\<close>

record card_el =
  icon :: string
  flipped :: bool
  matched :: bool

text \<open>
  The browser's timer queue. \<open>Tick\<close> is the arrow function of \<open>startTimer\<close> (registered with
  \<open>setInterval\<close>), \<open>Revert c1 c2\<close> the arrow function of \<open>handleMismatch\<close> closed over its
  two cards, \<open>EndGame\<close> the function \<open>endGame\<close>. Time is counted in milliseconds.
\<close>

datatype callback = Tick | Revert nat nat | EndGame

record timer_entry =
  tid :: nat
  due :: nat
  cb :: callback

record state =
  heap :: "nat \<Rightarrow> card_el"
  fresh :: nat
  cards :: "nat list"
  flippedCards :: "nat list"
  matchedCount :: nat
  moves :: nat
  timer :: "nat option"
  time :: nat
  gameStarted :: bool
  lockBoard :: bool
  movesEl :: nat
  timeEl :: nat
  finalMoves :: nat
  finalTime :: nat
  winOverlay :: bool
  now :: nat
  nextId :: nat
  pending :: "timer_entry list"

definition icons :: "string list" where
  "icons = [''fa-heart'', ''fa-star'', ''fa-bolt'', ''fa-moon'',
            ''fa-leaf'', ''fa-gem'', ''fa-fire'', ''fa-music'']"

subsection \<open>Utility functions\<close>

text \<open>
  \<open>[array[i], array[j]] = [array[j], array[i]]\<close>: both reads happen before both writes.
  In \<open>shuffle\<close> the indices are within the array: \<open>i\<close> is at most \<open>array.length - 1\<close>
  and \<open>j\<close> is at most \<open>i\<close> (lemma \<open>random_index_bound\<close> below), so the
  JavaScript assignment never extends the array.
\<close>

definition swap :: "'a list \<Rightarrow> nat \<Rightarrow> nat \<Rightarrow> 'a list" where
  "swap array i j = (array[i := array ! j])[j := array ! i]"

text \<open>
  \<open>Math.random() * (i + 1)\<close> is a product of two IEEE 754 double-precision numbers,
  rounded to the nearest double, ties to the even significand. Both operands are exact
  rationals, so the product is modelled as the exact rational product followed by this
  rounding.

  \<open>round_half_even\<close> rounds a rational to the nearest integer, ties to even.
  \<open>normalise\<close> finds the spacing \<open>2\<^sup>-\<^sup>d\<close> of the doubles around a positive \<open>x\<close>: it
  doubles \<open>x\<close> until the result has 53 significant bits (is at least \<open>2\<^sup>5\<^sup>2\<close>), at
  most 1074 times, \<open>2\<^sup>-\<^sup>1\<^sup>0\<^sup>7\<^sup>4\<close> being the spacing of the subnormal numbers.
  \<open>to_double x\<close> is then the double nearest to \<open>x\<close>, for \<open>0 \<le> x < 2\<^sup>5\<^sup>3\<close>; the products
  of \<open>shuffle\<close> are in this range, since a draw is below 1 and an array has fewer than
  \<open>2\<^sup>3\<^sup>2\<close> elements.
\<close>

definition round_half_even :: "rat \<Rightarrow> int" where
  "round_half_even q =
     (let f = \<lfloor>q\<rfloor>; rest = q - of_int f
      in if rest < 1 / 2 then f
         else if 1 / 2 < rest then f + 1
         else if even f then f else f + 1)"

fun normalise :: "nat \<Rightarrow> nat \<Rightarrow> rat \<Rightarrow> nat \<times> rat" where
  "normalise 0 d y = (d, y)"
| "normalise (Suc fuel) d y =
     (if y < 2 ^ 52 then normalise fuel (Suc d) (2 * y) else (d, y))"

definition to_double :: "rat \<Rightarrow> rat" where
  "to_double x =
     (if x = 0 then 0
      else case normalise 1074 0 x of
             (d, y) \<Rightarrow> of_int (round_half_even y) / 2 ^ d)"

text \<open>
  \<open>shuffle\<close>: the loop runs \<open>i\<close> from \<open>array.length - 1\<close> down to \<open>1\<close>. The random
  source is a sequence \<open>rnd\<close>; \<open>rnd k\<close> is the value of the \<open>k\<close>-th call of
  \<open>Math.random()\<close>, which the language guarantees to be a double in \<open>[0, 1)\<close>
  (\<open>random_ok\<close>). \<open>Math.floor\<close> of a double is its exact floor.
\<close>

fun shuffle_loop :: "(nat \<Rightarrow> rat) \<Rightarrow> nat \<Rightarrow> nat \<Rightarrow> 'a list \<Rightarrow> 'a list" where
  "shuffle_loop rnd k 0 array = array"
| "shuffle_loop rnd k (Suc i) array =
     (let j = nat \<lfloor>to_double (rnd k * of_nat (Suc i + 1))\<rfloor>
      in shuffle_loop rnd (Suc k) i (swap array (Suc i) j))"

definition shuffle :: "(nat \<Rightarrow> rat) \<Rightarrow> 'a list \<Rightarrow> 'a list" where
  "shuffle rnd array = shuffle_loop rnd 0 (length array - 1) array"

definition random_ok :: "(nat \<Rightarrow> rat) \<Rightarrow> bool" where
  "random_ok rnd = (\<forall>k. 0 \<le> rnd k \<and> rnd k < 1 \<and> to_double (rnd k) = rnd k)"

definition setTimeout :: "callback \<Rightarrow> nat \<Rightarrow> state \<Rightarrow> state" where
  "setTimeout c delay s =
     s\<lparr>pending := pending s @ [\<lparr>tid = nextId s, due = now s + delay, cb = c\<rparr>],
       nextId := nextId s + 1\<rparr>"

definition clearInterval :: "nat option \<Rightarrow> state \<Rightarrow> state" where
  "clearInterval h s =
     (case h of
        None \<Rightarrow> s
      | Some k \<Rightarrow> s\<lparr>pending := filter (\<lambda>t. tid t \<noteq> k) (pending s)\<rparr>)"

text \<open>
  \<open>setInterval\<close> registers the callback of \<open>startTimer\<close>; the handle it returns is the
  handle of the new entry, \<open>nextId\<close> of the state it was called in.
\<close>

definition setInterval :: "nat \<Rightarrow> state \<Rightarrow> state" where
  "setInterval delay s =
     s\<lparr>pending := pending s @ [\<lparr>tid = nextId s, due = now s + delay, cb = Tick\<rparr>],
       nextId := nextId s + 1\<rparr>"

definition startTimer :: "state \<Rightarrow> state" where
  "startTimer s =
     (if gameStarted s then s
      else (setInterval 1000 (s\<lparr>gameStarted := True\<rparr>))\<lparr>timer := Some (nextId s)\<rparr>)"

definition resetTimer :: "state \<Rightarrow> state" where
  "resetTimer s =
     (clearInterval (timer s) s)\<lparr>timer := None, time := 0, timeEl := 0, gameStarted := False\<rparr>"

subsection \<open>Game setup\<close>

text \<open>
  One iteration of the \<open>forEach\<close> of \<open>createBoard\<close>: a new element with neither class set
  is created, appended to the board and pushed on \<open>cards\<close>.
\<close>

definition add_card :: "string \<Rightarrow> state \<Rightarrow> state" where
  "add_card ic s =
     s\<lparr>heap := (heap s)(fresh s := \<lparr>icon = ic, flipped = False, matched = False\<rparr>),
       fresh := fresh s + 1,
       cards := cards s @ [fresh s]\<rparr>"

definition createBoard :: "(nat \<Rightarrow> rat) \<Rightarrow> state \<Rightarrow> state" where
  "createBoard rnd s =
     (let s1 = s\<lparr>cards := [], flippedCards := [], matchedCount := 0, moves := 0,
                 movesEl := 0, lockBoard := False\<rparr>;
          s2 = resetTimer s1;
          s3 = s2\<lparr>winOverlay := False\<rparr>;
          cardIcons = shuffle rnd (icons @ icons)
      in fold add_card cardIcons s3)"

subsection \<open>Game logic\<close>

definition resetTurn :: "state \<Rightarrow> state" where
  "resetTurn s = s\<lparr>flippedCards := [], lockBoard := False\<rparr>"

definition endGame :: "state \<Rightarrow> state" where
  "endGame s =
     (clearInterval (timer s) s)\<lparr>finalMoves := moves s, finalTime := time s,
                                  winOverlay := True\<rparr>"

definition add_matched :: "nat \<Rightarrow> state \<Rightarrow> state" where
  "add_matched c s = s\<lparr>heap := (heap s)(c := (heap s c)\<lparr>matched := True\<rparr>)\<rparr>"

definition add_flipped :: "nat \<Rightarrow> state \<Rightarrow> state" where
  "add_flipped c s = s\<lparr>heap := (heap s)(c := (heap s c)\<lparr>flipped := True\<rparr>)\<rparr>"

definition remove_flipped :: "nat \<Rightarrow> state \<Rightarrow> state" where
  "remove_flipped c s = s\<lparr>heap := (heap s)(c := (heap s c)\<lparr>flipped := False\<rparr>)\<rparr>"

definition handleMatch :: "nat \<Rightarrow> nat \<Rightarrow> state \<Rightarrow> state" where
  "handleMatch card1 card2 s =
     (let s1 = add_matched card1 s;
          s2 = add_matched card2 s1;
          s3 = s2\<lparr>matchedCount := matchedCount s2 + 2\<rparr>;
          s4 = resetTurn s3
      in if matchedCount s4 = length (cards s4) then setTimeout EndGame 400 s4 else s4)"

definition handleMismatch :: "nat \<Rightarrow> nat \<Rightarrow> state \<Rightarrow> state" where
  "handleMismatch card1 card2 s = setTimeout (Revert card1 card2) 900 s"

text \<open>
  \<open>checkForMatch\<close> destructures the first two elements of \<open>flippedCards\<close>. With fewer than
  two, \<open>card2\<close> would be \<open>undefined\<close> and reading \<open>card2.dataset\<close> would throw after the
  lock has been set; \<open>flipCard\<close> only calls it with exactly two.
\<close>

definition checkForMatch :: "state \<Rightarrow> state" where
  "checkForMatch s =
     (let s1 = s\<lparr>lockBoard := True\<rparr>
      in case flippedCards s1 of
           card1 # card2 # rest \<Rightarrow>
             if icon (heap s1 card1) = icon (heap s1 card2)
             then handleMatch card1 card2 s1
             else handleMismatch card1 card2 s1
         | _ \<Rightarrow> s1)"

definition flipCard :: "nat \<Rightarrow> state \<Rightarrow> state" where
  "flipCard c s =
     (if lockBoard s then s
      else if flipped (heap s c) \<or> matched (heap s c) then s
      else
        let s1 = startTimer s;
            s2 = add_flipped c s1;
            s3 = s2\<lparr>flippedCards := flippedCards s2 @ [c]\<rparr>
        in if length (flippedCards s3) = 2
           then checkForMatch (s3\<lparr>moves := moves s3 + 1, movesEl := moves s3 + 1\<rparr>)
           else s3)"

subsection \<open>The event loop\<close>

text \<open>
  The page is single-threaded: the script runs one event handler or timer callback at a
  time, to completion. The model keeps a clock in milliseconds and the queue of
  registered timers; a timer runs in the millisecond in which it is due.

  Running a timer callback: an interval stays registered and is due again 1000 ms later;
  a timeout is removed from the queue when it runs.
\<close>

definition rearm :: "nat \<Rightarrow> state \<Rightarrow> state" where
  "rearm k s =
     s\<lparr>pending := map (\<lambda>t. if tid t = k then t\<lparr>due := due t + 1000\<rparr> else t) (pending s)\<rparr>"

definition tick :: "state \<Rightarrow> state" where
  "tick s = s\<lparr>time := time s + 1, timeEl := time s + 1\<rparr>"

definition revert_cb :: "nat \<Rightarrow> nat \<Rightarrow> state \<Rightarrow> state" where
  "revert_cb card1 card2 s = resetTurn (remove_flipped card2 (remove_flipped card1 s))"

definition run_cb :: "timer_entry \<Rightarrow> state \<Rightarrow> state" where
  "run_cb t s =
     (case cb t of
        Tick \<Rightarrow> tick (rearm (tid t) s)
      | Revert card1 card2 \<Rightarrow>
          revert_cb card1 card2 (s\<lparr>pending := filter (\<lambda>u. tid u \<noteq> tid t) (pending s)\<rparr>)
      | EndGame \<Rightarrow> endGame (s\<lparr>pending := filter (\<lambda>u. tid u \<noteq> tid t) (pending s)\<rparr>))"

text \<open>
  \<open>fire k\<close> runs the timer with handle \<open>k\<close> if it is still registered (an earlier callback
  of the same millisecond may have cleared it).
\<close>

definition fire :: "nat \<Rightarrow> state \<Rightarrow> state" where
  "fire k s =
     (case find (\<lambda>t. tid t = k) (pending s) of
        None \<Rightarrow> s
      | Some t \<Rightarrow> run_cb t s)"

text \<open>One millisecond passes: the clock advances and the timers now due run in order.\<close>

definition ms_step :: "state \<Rightarrow> state" where
  "ms_step s =
     (let s1 = s\<lparr>now := now s + 1\<rparr>
      in fold fire (map tid (filter (\<lambda>t. due t \<le> now s1) (pending s1))) s1)"

primrec advance :: "nat \<Rightarrow> state \<Rightarrow> state" where
  "advance 0 s = s"
| "advance (Suc d) s = advance d (ms_step s)"

text \<open>
  The events the page delivers to the script, one at a time: a click on the card at
  position \<open>i\<close> of the current board (only cards on the board can be clicked), a click on
  the restart or play-again button (with the random draws its shuffle will see), and the
  passing of \<open>d\<close> milliseconds.
\<close>

datatype event = Click nat | Restart "nat \<Rightarrow> rat" | Wait nat

fun step :: "event \<Rightarrow> state \<Rightarrow> state" where
  "step (Click i) s = (if i < length (cards s) then flipCard (cards s ! i) s else s)"
| "step (Restart rnd) s = createBoard rnd s"
| "step (Wait d) s = advance d s"

fun exec :: "event list \<Rightarrow> state \<Rightarrow> state" where
  "exec [] s = s"
| "exec (e # es) s = exec es (step e s)"

text \<open>The module-level initialisers, and the call of \<open>createBoard\<close> that ends the script.\<close>

definition init :: state where
  "init = \<lparr>heap = (\<lambda>a. \<lparr>icon = [], flipped = False, matched = False\<rparr>), fresh = 0,
           cards = [], flippedCards = [], matchedCount = 0, moves = 0, timer = None,
           time = 0, gameStarted = False, lockBoard = False, movesEl = 0, timeEl = 0,
           finalMoves = 0, finalTime = 0, winOverlay = False, now = 0, nextId = 0,
           pending = []\<rparr>"

definition boot :: "(nat \<Rightarrow> rat) \<Rightarrow> state" where
  "boot rnd = createBoard rnd init"

subsection \<open>The notions of the specification\<close>

text \<open>The status of a tile as the specification names it.\<close>

datatype status = Hidden | Revealed | Matched

definition status_of :: "card_el \<Rightarrow> status" where
  "status_of c = (if matched c then Matched else if flipped c then Revealed else Hidden)"

definition tile :: "state \<Rightarrow> nat \<Rightarrow> card_el" where
  "tile s i = heap s (cards s ! i)"

definition board_icons :: "state \<Rightarrow> string list" where
  "board_icons s = map (\<lambda>c. icon (heap s c)) (cards s)"

definition revealed_tiles :: "state \<Rightarrow> nat list" where
  "revealed_tiles s = filter (\<lambda>c. status_of (heap s c) = Revealed) (cards s)"

definition matched_tiles :: "state \<Rightarrow> nat list" where
  "matched_tiles s = filter (\<lambda>c. matched (heap s c)) (cards s)"

text \<open>A game in the sense of the specification is a run without a restart.\<close>

fun is_restart :: "event \<Rightarrow> bool" where
  "is_restart (Restart rnd) = True"
| "is_restart (Click i) = False"
| "is_restart (Wait d) = False"

definition restart_free :: "event list \<Rightarrow> bool" where
  "restart_free es = list_all (\<lambda>e. \<not> is_restart e) es"

text \<open>
  What holds of \<open>matchedCount\<close> in every reachable state: the cards of the board and of
  the turn are distinct elements, the cards of the turn are on the board, carry the class
  \<open>flipped\<close> and not the class \<open>matched\<close>, and \<open>matchedCount\<close> counts the matched
  cards of the board.
\<close>

definition count_inv :: "state \<Rightarrow> bool" where
  "count_inv s =
     (distinct (cards s) \<and> distinct (flippedCards s)
      \<and> set (flippedCards s) \<subseteq> set (cards s)
      \<and> (\<forall>c \<in> set (flippedCards s). flipped (heap s c) \<and> \<not> matched (heap s c))
      \<and> matchedCount s = length (matched_tiles s)
      \<and> even (matchedCount s))"

text \<open>
  A click on position \<open>i\<close> resolves a match when it is accepted, one tile is in the turn
  and the two icons are equal.
\<close>

definition resolves_match :: "state \<Rightarrow> nat \<Rightarrow> bool" where
  "resolves_match s i =
     (i < length (cards s) \<and> \<not> lockBoard s \<and> status_of (tile s i) = Hidden
      \<and> (case flippedCards s of
            [card1] \<Rightarrow> icon (heap s card1) = icon (tile s i)
          | _ \<Rightarrow> False))"

text \<open>
  A click completes a turn when it is accepted and one tile is already in the turn.
\<close>

definition second_reveal :: "state \<Rightarrow> event \<Rightarrow> bool" where
  "second_reveal s e =
     (case e of
        Click i \<Rightarrow> i < length (cards s) \<and> \<not> lockBoard s \<and> status_of (tile s i) = Hidden
                     \<and> length (flippedCards s) = 1
      | Restart rnd \<Rightarrow> False
      | Wait d \<Rightarrow> False)"

fun completed_turns :: "event list \<Rightarrow> state \<Rightarrow> nat" where
  "completed_turns [] s = 0"
| "completed_turns (e # es) s =
     (if second_reveal s e then 1 else 0) + completed_turns es (step e s)"

text \<open>
  The state that \<open>createBoard\<close> is meant to leave behind: every tile hidden, no turn in
  progress, the counters at zero, no interval handle, the win overlay hidden.
\<close>

definition cleared :: "state \<Rightarrow> bool" where
  "cleared s =
     (list_all (\<lambda>c. status_of (heap s c) = Hidden) (cards s)
      \<and> flippedCards s = [] \<and> \<not> lockBoard s \<and> matchedCount s = 0
      \<and> moves s = 0 \<and> movesEl s = 0
      \<and> timer s = None \<and> \<not> gameStarted s \<and> time s = 0 \<and> timeEl s = 0
      \<and> \<not> winOverlay s)"

text \<open>
  The elapsed-time counter is running when an interval callback is registered; the
  variable \<open>timer\<close> is meant to hold its handle.
\<close>

definition ticking :: "state \<Rightarrow> bool" where
  "ticking s = list_ex (\<lambda>t. cb t = Tick) (pending s)"

definition ticks_owned :: "state \<Rightarrow> bool" where
  "ticks_owned s =
     list_all (\<lambda>t. cb t = Tick \<longrightarrow> timer s = Some (tid t) \<and> gameStarted s) (pending s)"

text \<open>
  Timeouts of one kind: \<open>sole_timeout K e s\<close> says that \<open>e\<close> is registered, that it is the
  only registered timer of kind \<open>K\<close> and the only one with its handle, and that the
  interval handle in \<open>timer\<close> is a different one.
\<close>

fun is_revert :: "callback \<Rightarrow> bool" where
  "is_revert (Revert card1 card2) = True"
| "is_revert Tick = False"
| "is_revert EndGame = False"

fun is_endGame :: "callback \<Rightarrow> bool" where
  "is_endGame EndGame = True"
| "is_endGame Tick = False"
| "is_endGame (Revert card1 card2) = False"

definition sole_timeout :: "(callback \<Rightarrow> bool) \<Rightarrow> timer_entry \<Rightarrow> state \<Rightarrow> bool" where
  "sole_timeout K e s =
     (e \<in> set (pending s)
      \<and> list_all (\<lambda>t. tid t = tid e \<or> K (cb t) \<longrightarrow> t = e) (pending s)
      \<and> timer s \<noteq> Some (tid e))"

definition none_pending :: "(callback \<Rightarrow> bool) \<Rightarrow> state \<Rightarrow> bool" where
  "none_pending K s = list_all (\<lambda>t. \<not> K (cb t)) (pending s)"

text \<open>Timer handles are handed out in increasing order, so registered ones are smaller.\<close>

definition timers_ok :: "state \<Rightarrow> bool" where
  "timers_ok s =
     (list_all (\<lambda>t. tid t < nextId s) (pending s)
      \<and> (case timer s of None \<Rightarrow> True | Some k \<Rightarrow> k < nextId s))"

text \<open>The game is won, in the sense of the specification, when every tile is matched.\<close>

definition all_matched :: "state \<Rightarrow> bool" where
  "all_matched s = list_all (\<lambda>c. matched (heap s c)) (cards s)"

text \<open>
  What holds of the win overlay and of \<open>endGame\<close> throughout a game: once the overlay is
  shown all tiles are matched, the interval is cancelled and the final texts show the
  counters; when all tiles are matched but the overlay is not yet shown, \<open>endGame\<close> is
  registered and due within 400 ms; otherwise \<open>endGame\<close> is not registered.
\<close>

definition won_state :: "state \<Rightarrow> bool" where
  "won_state s =
     (winOverlay s \<and> matchedCount s = length (cards s) \<and> \<not> ticking s
      \<and> finalMoves s = moves s \<and> finalTime s = time s \<and> none_pending is_endGame s)"

definition win_inv :: "state \<Rightarrow> bool" where
  "win_inv s =
     (count_inv s \<and> ticks_owned s \<and> timers_ok s
      \<and> (if winOverlay s then won_state s
          else if matchedCount s = length (cards s)
          then list_ex (\<lambda>e. sole_timeout is_endGame e s \<and> cb e = EndGame
                              \<and> now s < due e \<and> due e \<le> now s + 400) (pending s)
          else none_pending is_endGame s))"

text \<open>
  What holds of the turn throughout a game: the revealed tiles are those of the turn;
  while the board is locked the turn has two tiles and exactly their reversion is
  registered; while it is not locked the turn has at most one tile and no reversion is
  registered.
\<close>

definition turn_inv :: "state \<Rightarrow> bool" where
  "turn_inv s =
     (count_inv s \<and> timers_ok s
      \<and> list_all (\<lambda>c. status_of (heap s c) = Revealed \<longrightarrow> c \<in> set (flippedCards s)) (cards s)
      \<and> (if lockBoard s
          then (case flippedCards s of
                  [card1, card2] \<Rightarrow>
                    list_ex (\<lambda>e. sole_timeout is_revert e s \<and> cb e = Revert card1 card2)
                      (pending s)
                | _ \<Rightarrow> False)
          else length (flippedCards s) \<le> 1 \<and> none_pending is_revert s))"

section \<open>Reveals that are ignored\<close>

lemmas game_defs = flipCard_def checkForMatch_def handleMatch_def handleMismatch_def
  resetTurn_def startTimer_def setInterval_def setTimeout_def add_flipped_def add_matched_def

lemma moves_checkForMatch: "moves (checkForMatch s) = moves s"
  by (simp add: game_defs Let_def split: list.splits)

lemma cards_flipCard: "cards (flipCard c s) = cards s"
  by (simp add: game_defs Let_def split: list.splits)

lemma flipCard_ignored:
  "lockBoard s \<or> flipped (heap s c) \<or> matched (heap s c) \<Longrightarrow> flipCard c s = s"
  by (auto simp: flipCard_def)

lemma flipCard_shown:
  "\<not> lockBoard s \<Longrightarrow> flipped (heap (flipCard c s) c) \<or> matched (heap (flipCard c s) c)"
  by (simp add: game_defs Let_def split: list.splits)

lemma status_not_hidden:
  "(status_of x = Revealed \<or> status_of x = Matched) = (flipped x \<or> matched x)"
  by (simp add: status_of_def)

text \<open>
  C7: a reveal is a silent no-op, leaving the whole state as it is, whenever the board is
  locked or the target tile is already revealed or matched; in particular a second click
  on the same tile changes nothing that the first click had not already changed.
\<close>

theorem reveal_ignored:
  "(lockBoard s \<or> status_of (tile s i) = Revealed \<or> status_of (tile s i) = Matched
      \<longrightarrow> step (Click i) s = s)
   \<and> step (Click i) (step (Click i) s) = step (Click i) s"
proof
  show "lockBoard s \<or> status_of (tile s i) = Revealed \<or> status_of (tile s i) = Matched
      \<longrightarrow> step (Click i) s = s"
    by (auto simp: tile_def status_not_hidden flipCard_ignored)
next
  show "step (Click i) (step (Click i) s) = step (Click i) s"
  proof (cases "i < length (cards s)")
    case False
    then show ?thesis by simp
  next
    case inb: True
    show ?thesis
    proof (cases "lockBoard s")
      case True
      then show ?thesis by (simp add: flipCard_ignored)
    next
      case False
      from flipCard_shown [OF this, of "cards s ! i"]
      have "flipCard (cards s ! i) (flipCard (cards s ! i) s) = flipCard (cards s ! i) s"
        by (intro flipCard_ignored) blast
      with inb show ?thesis by (simp add: cards_flipCard)
    qed
  qed
qed

theorem reveal_ignored_witness:
  "status_of (tile (step (Click 0) (boot (\<lambda>k. 0))) 0) = Revealed
   \<and> step (Click 0) (step (Click 0) (boot (\<lambda>k. 0))) = step (Click 0) (boot (\<lambda>k. 0))"
proof -
  have "status_of (tile (step (Click 0) (boot (\<lambda>k. 0))) 0) = Revealed"
    by code_simp
  with reveal_ignored [of "step (Click 0) (boot (\<lambda>k. 0))" 0] show ?thesis
    by blast
qed

section \<open>The shuffle and the board it produces\<close>

lemma length_swap: "length (swap xs i j) = length xs"
  by (simp add: swap_def)

lemma mset_swap_list: "i < length xs \<Longrightarrow> j < length xs \<Longrightarrow> mset (swap xs i j) = mset xs"
  unfolding swap_def by (rule mset_swap)

lemma normalise_spec:
  "normalise fuel d y = (d', y') \<Longrightarrow>
     d \<le> d' \<and> d' \<le> d + fuel \<and> y' = y * 2 ^ (d' - d)
     \<and> (d' = d + fuel \<or> 2 ^ 52 \<le> y') \<and> (d < d' \<longrightarrow> y' / 2 < 2 ^ 52)"
proof (induction fuel arbitrary: d y)
  case 0
  then show ?case by simp
next
  case (Suc fuel)
  show ?case
  proof (cases "y < 2 ^ 52")
    case False
    with Suc.prems show ?thesis by simp
  next
    case True
    with Suc.prems have n: "normalise fuel (Suc d) (2 * y) = (d', y')" by simp
    from Suc.IH [OF n] have ih: "Suc d \<le> d'" "d' \<le> Suc d + fuel"
      "y' = 2 * y * 2 ^ (d' - Suc d)" "d' = Suc d + fuel \<or> 2 ^ 52 \<le> y'"
      "Suc d < d' \<longrightarrow> y' / 2 < 2 ^ 52"
      by blast+
    from ih(1) have "d' - d = Suc (d' - Suc d)" by simp
    then have y: "y' = y * 2 ^ (d' - d)" using ih(3) by simp
    have "y' / 2 < 2 ^ 52"
    proof (cases "Suc d < d'")
      case True
      with ih(5) show ?thesis by simp
    next
      case False
      with ih(1) have "d' = Suc d" by simp
      with ih(3) True show ?thesis by simp
    qed
    with ih(1,2,4) y show ?thesis by auto
  qed
qed

lemma round_half_even_less:
  assumes "q < of_int N - 1 / 2"
  shows "round_half_even q < N"
proof -
  have f: "of_int \<lfloor>q\<rfloor> \<le> q" by simp
  show ?thesis
  proof (cases "q - of_int \<lfloor>q\<rfloor> < 1 / 2")
    case True
    then have "round_half_even q = \<lfloor>q\<rfloor>" by (simp add: round_half_even_def)
    moreover from f assms have "(of_int \<lfloor>q\<rfloor> :: rat) < of_int N" by linarith
    ultimately show ?thesis by simp
  next
    case False
    then have "round_half_even q \<le> \<lfloor>q\<rfloor> + 1" by (simp add: round_half_even_def Let_def)
    moreover from False assms have "(of_int (\<lfloor>q\<rfloor> + 1) :: rat) < of_int N" by (simp; linarith)
    then have "\<lfloor>q\<rfloor> + 1 < N" by (simp only: of_int_less_iff)
    ultimately show ?thesis by simp
  qed
qed

lemma round_half_even_nonneg: "0 \<le> q \<Longrightarrow> 0 \<le> round_half_even q"
  by (auto simp: round_half_even_def Let_def)

lemma to_double_nonneg: "0 \<le> x \<Longrightarrow> 0 \<le> to_double x"
proof (cases "x = 0")
  case True
  then show ?thesis by (simp add: to_double_def)
next
  case False
  assume x: "0 \<le> x"
  obtain d y where n: "normalise 1074 0 x = (d, y)" by (cases "normalise 1074 0 x")
  from normalise_spec [OF n] have "y = x * 2 ^ (d - 0)" by blast
  with x have "0 \<le> y" by simp
  then have "0 \<le> round_half_even y" by (rule round_half_even_nonneg)
  with False n show ?thesis by (simp add: to_double_def)
qed

text \<open>The product of a double below 1 and a positive integer, rounded, is below the integer.\<close>

lemma to_double_product_less:
  assumes "0 \<le> r" and "r \<le> 1 - 1 / 2 ^ 53" and "0 < n"
  shows "to_double (r * of_nat n) < of_nat n"
proof (cases "r * of_nat n = 0")
  case True
  with assms(3) show ?thesis by (simp add: to_double_def)
next
  case False
  obtain d y where n: "normalise 1074 0 (r * of_nat n) = (d, y)"
    by (cases "normalise 1074 0 (r * of_nat n)")
  from normalise_spec [OF n] have "y = r * of_nat n * 2 ^ (d - 0)"
    and big: "d = 0 + 1074 \<or> 2 ^ 52 \<le> y"
    by blast+
  then have y: "y = r * of_nat n * 2 ^ d" by simp
  let ?N = "of_nat n * 2 ^ d :: rat"
  have Npos: "0 < ?N" using assms(3) by simp
  have "(0::rat) < 1 / 2 ^ 53" by simp
  with assms(2) have r1: "r < 1" by linarith
  have "2 ^ 52 < ?N"
  proof (cases "2 ^ 52 \<le> y")
    case True
    have "r * ?N < 1 * ?N" using r1 Npos by (intro mult_strict_right_mono)
    then have "y < ?N" unfolding y by (simp add: mult.assoc)
    with True show ?thesis by simp
  next
    case False
    with big have d: "d = 1074" by auto
    then have "(2::rat) ^ 52 < 2 ^ d" by (intro power_strict_increasing) simp_all
    also have "\<dots> \<le> of_nat n * 2 ^ d" using assms(3) by simp
    finally show ?thesis .
  qed
  then have half: "1 / 2 < ?N / 2 ^ 53" by simp
  have "r * ?N \<le> (1 - 1 / 2 ^ 53) * ?N"
    using assms(2) Npos by (intro mult_right_mono) simp_all
  then have "y \<le> (1 - 1 / 2 ^ 53) * ?N"
    unfolding y by (simp only: mult.assoc)
  also have "\<dots> = ?N - ?N / 2 ^ 53" by (simp add: algebra_simps)
  finally have "y < ?N - 1 / 2" using half by linarith
  moreover have N: "?N = of_int (int n * 2 ^ d)" by simp
  ultimately have "y < of_int (int n * 2 ^ d) - 1 / 2" by (simp only:)
  then have "round_half_even y < int n * 2 ^ d" by (rule round_half_even_less)
  then have "(of_int (round_half_even y) :: rat) < of_int (int n * 2 ^ d)"
    by (simp only: of_int_less_iff)
  then have "of_int (round_half_even y) < ?N" by (simp only: N)
  then have "of_int (round_half_even y) / 2 ^ d < (of_nat n :: rat)"
    by (simp add: divide_less_eq)
  moreover have "to_double (r * of_nat n) = of_int (round_half_even y) / 2 ^ d"
    using False by (simp add: to_double_def n)
  ultimately show ?thesis by (simp only:)
qed


text \<open>A double in \<open>[0, 1)\<close> is at most \<open>1 - 2\<^sup>-\<^sup>5\<^sup>3\<close>.\<close>

lemma double_below_one:
  assumes "0 \<le> r" and "r < 1" and "to_double r = r"
  shows "r \<le> 1 - 1 / 2 ^ 53"
proof (cases "r = 0")
  case True
  then show ?thesis by simp
next
  case False
  obtain d y where n: "normalise 1074 0 r = (d, y)" by (cases "normalise 1074 0 r")
  from normalise_spec [OF n] have "y = r * 2 ^ (d - 0)"
    and big: "d = 0 + 1074 \<or> 2 ^ 52 \<le> y" and prev: "0 < d \<longrightarrow> y / 2 < 2 ^ 52"
    by blast+
  then have y: "y = r * 2 ^ d" by simp
  have "to_double r = of_int (round_half_even y) / 2 ^ d"
    using False by (simp add: to_double_def n)
  with assms(3) have "of_int (round_half_even y) / 2 ^ d = r" by simp
  then have m: "of_int (round_half_even y) = y" unfolding y by (simp add: field_simps)
  have dpos: "0 < d"
  proof (rule ccontr)
    assume "\<not> 0 < d"
    then have d0: "d = 0" by simp
    with big have "2 ^ 52 \<le> y" by auto
    moreover have "y < 1" using assms(2) by (simp add: y d0)
    moreover have "(1::rat) \<le> 2 ^ 52" by simp
    ultimately show False by linarith
  qed
  with prev have y53: "y < 2 * 2 ^ 52" by simp
  have pd: "(0::rat) < 2 ^ d" by simp
  show ?thesis
  proof (cases "d \<le> 53")
    case True
    have e1: "(of_int (2 ^ d) :: rat) = 2 ^ d" and e2: "(of_int (2 ^ d - 1) :: rat) = 2 ^ d - 1"
      by simp_all
    have "r * 2 ^ d < 1 * 2 ^ d" using assms(2) pd by (intro mult_strict_right_mono)
    then have "y < 2 ^ d" by (simp add: y)
    then have "(of_int (round_half_even y) :: rat) < of_int (2 ^ d)" by (simp only: m e1)
    then have "round_half_even y < 2 ^ d" by (simp only: of_int_less_iff)
    then have "round_half_even y \<le> 2 ^ d - 1" by simp
    then have "(of_int (round_half_even y) :: rat) \<le> of_int (2 ^ d - 1)"
      by (simp only: of_int_le_iff)
    then have "y \<le> 2 ^ d - 1" by (simp only: m e2)
    then have "r * 2 ^ d \<le> 2 ^ d - 1" by (simp only: y)
    then have "r \<le> (2 ^ d - 1) / 2 ^ d" using pd by (simp add: pos_le_divide_eq)
    also have "\<dots> = 1 - 1 / 2 ^ d" by (simp add: diff_divide_distrib)
    also have "\<dots> \<le> 1 - 1 / 2 ^ 53"
    proof -
      have "(2::rat) ^ d \<le> 2 ^ 53" using True by (intro power_increasing) simp_all
      then have "1 / (2::rat) ^ 53 \<le> 1 / 2 ^ d" using pd by (intro divide_left_mono) simp_all
      then show ?thesis by linarith
    qed
    finally show ?thesis .
  next
    case False
    then have "54 \<le> d" by simp
    then have "(2::rat) ^ 54 \<le> 2 ^ d" by (intro power_increasing) simp_all
    moreover have "(2::rat) ^ 54 = 2 * (2 * 2 ^ 52)" by simp
    ultimately have "2 * (2 * 2 ^ 52) \<le> (2::rat) ^ d" by simp
    with y53 have "2 * y < 2 ^ d" by linarith
    then have "2 * r * 2 ^ d < 1 * 2 ^ d" by (simp add: y)
    then have "2 * r < 1" using pd by (simp only: mult_less_cancel_right_pos)
    moreover have "(1::rat) / 2 ^ 53 \<le> 1 / 2" by simp
    ultimately show ?thesis by linarith
  qed
qed

lemma random_index_bound:
  assumes "0 \<le> r" and "r < 1" and "to_double r = r"
  shows "nat \<lfloor>to_double (r * of_nat (Suc n))\<rfloor> \<le> n"
proof -
  have "to_double (r * of_nat (Suc n)) < of_nat (Suc n)"
    using assms(1) double_below_one [OF assms] by (rule to_double_product_less) simp
  then have "\<lfloor>to_double (r * of_nat (Suc n))\<rfloor> < int (Suc n)"
    by (simp add: floor_less_iff del: of_nat_Suc)
  then show ?thesis by linarith
qed

lemma normalise_numeral:
  "normalise (numeral k) d y =
     (if y < 2 ^ 52 then normalise (pred_numeral k) (Suc d) (2 * y) else (d, y))"
  by (simp add: numeral_eq_Suc)

lemma to_double_zero: "to_double 0 = 0"
  by (simp add: to_double_def)

lemma to_double_half: "to_double (1 / 2) = 1 / 2"
  by (simp add: to_double_def normalise_numeral round_half_even_def Let_def)

text \<open>
  The rounding matters: \<open>5146971002709138 / 2\<^sup>5\<^sup>3\<close> is the double nearest to \<open>4/7\<close>
  (printed \<open>0.5714285714285714\<close>); its exact product with 7 is below 4, the rounded
  product is 4, and the index that \<open>shuffle\<close> computes for \<open>i = 6\<close> is 4, not 3.
\<close>

lemma nearest_to_four_sevenths:
  "(0::rat) \<le> 5146971002709138 / 2 ^ 53 \<and> (5146971002709138 / 2 ^ 53 ::rat) < 1
   \<and> to_double (5146971002709138 / 2 ^ 53) = 5146971002709138 / 2 ^ 53"
  by (simp add: to_double_def normalise_numeral round_half_even_def Let_def)

lemma double_product_rounds_up:
  "nat \<lfloor>(5146971002709138 / 2 ^ 53 * 7 :: rat)\<rfloor> = 3
   \<and> nat \<lfloor>to_double (5146971002709138 / 2 ^ 53 * 7)\<rfloor> = 4"
proof
  show "nat \<lfloor>(5146971002709138 / 2 ^ 53 * 7 :: rat)\<rfloor> = 3"
    by code_simp
  show "nat \<lfloor>to_double (5146971002709138 / 2 ^ 53 * 7)\<rfloor> = 4"
    by (simp add: to_double_def normalise_numeral round_half_even_def Let_def, code_simp)
qed

lemma shuffle_loop_perm:
  "random_ok rnd \<Longrightarrow> i < length xs \<or> i = 0 \<Longrightarrow>
     mset (shuffle_loop rnd k i xs) = mset xs \<and> length (shuffle_loop rnd k i xs) = length xs"
proof (induction i arbitrary: k xs)
  case 0
  then show ?case by simp
next
  case (Suc i)
  let ?j = "nat \<lfloor>to_double (rnd k * of_nat (Suc i + 1))\<rfloor>"
  from Suc.prems have len: "Suc i < length xs" by simp
  from Suc.prems(1) have "?j \<le> Suc i"
    using random_index_bound [of "rnd k" "Suc i"] by (simp add: random_ok_def)
  with len have j: "?j < length xs" by simp
  have "i < length (swap xs (Suc i) ?j)" using len by (simp add: length_swap)
  from Suc.IH [OF Suc.prems(1), of "swap xs (Suc i) ?j" "Suc k"] this
  show ?case using len j by (simp add: Let_def mset_swap_list length_swap)
qed

lemma shuffle_perm:
  "random_ok rnd \<Longrightarrow> mset (shuffle rnd xs) = mset xs \<and> length (shuffle rnd xs) = length xs"
  unfolding shuffle_def by (rule shuffle_loop_perm) (cases xs, auto)

lemma add_card_fields [simp]:
  "cards (add_card ic s) = cards s @ [fresh s]"
  "fresh (add_card ic s) = Suc (fresh s)"
  "heap (add_card ic s) = (heap s)(fresh s := \<lparr>icon = ic, flipped = False, matched = False\<rparr>)"
  by (simp_all add: add_card_def)

lemma fold_add_card_cards:
  "cards (fold add_card ics s) = cards s @ [fresh s..<fresh s + length ics]"
proof (induction ics arbitrary: s)
  case Nil
  then show ?case by simp
next
  case (Cons ic ics)
  have "[fresh s..<fresh s + length (ic # ics)] =
          fresh s # [Suc (fresh s)..<Suc (fresh s) + length ics]"
    using upt_conv_Cons [of "fresh s" "fresh s + Suc (length ics)"] by simp
  then show ?case by (simp only: fold_simps Cons.IH add_card_fields append_assoc append.simps)
qed

lemma fold_add_card_fresh: "fresh (fold add_card ics s) = fresh s + length ics"
  by (induction ics arbitrary: s) simp_all

lemma fold_add_card_heap_old: "a < fresh s \<Longrightarrow> heap (fold add_card ics s) a = heap s a"
  by (induction ics arbitrary: s) simp_all

lemma fold_add_card_heap_new:
  "n < length ics \<Longrightarrow> a = fresh s + n \<Longrightarrow>
     heap (fold add_card ics s) a = \<lparr>icon = ics ! n, flipped = False, matched = False\<rparr>"
proof (induction ics arbitrary: s n a)
  case Nil
  then show ?case by simp
next
  case (Cons ic ics)
  show ?case
  proof (cases n)
    case 0
    with Cons.prems show ?thesis by (simp add: fold_add_card_heap_old)
  next
    case (Suc m)
    with Cons.prems have "m < length ics" "a = fresh (add_card ic s) + m" by simp_all
    from Cons.IH [OF this] Suc show ?thesis by simp
  qed
qed

lemma createBoard_cards:
  "cards (createBoard rnd s) = [fresh s..<fresh s + length (shuffle rnd (icons @ icons))]"
  by (simp add: createBoard_def Let_def fold_add_card_cards resetTimer_def clearInterval_def
        split: option.splits)

lemma createBoard_heap_new:
  "n < length (shuffle rnd (icons @ icons)) \<Longrightarrow>
     heap (createBoard rnd s) (fresh s + n) =
       \<lparr>icon = shuffle rnd (icons @ icons) ! n, flipped = False, matched = False\<rparr>"
  by (simp add: createBoard_def Let_def resetTimer_def clearInterval_def fold_add_card_heap_new
        split: option.splits)

lemma createBoard_board_icons: "board_icons (createBoard rnd s) = shuffle rnd (icons @ icons)"
  by (rule nth_equalityI)
     (simp_all add: board_icons_def createBoard_cards createBoard_heap_new)

text \<open>
  C4: whatever doubles in \<open>[0, 1)\<close> the random source returns, the shuffle permutes its
  argument, so the board made by \<open>createBoard\<close> has twice as many cards as there are icons
  (16) and shows every icon exactly twice.
\<close>

theorem board_is_permutation:
  assumes "random_ok rnd"
  shows "mset (shuffle rnd (al @ al)) = mset al + mset al
       \<and> length (shuffle rnd (al @ al)) = 2 * length al
       \<and> mset (board_icons (createBoard rnd s)) = mset icons + mset icons
       \<and> length (cards (createBoard rnd s)) = 2 * length icons
       \<and> length (cards (createBoard rnd s)) = 16
       \<and> (\<forall>ic \<in> set icons. count (mset (board_icons (createBoard rnd s))) ic = 2)"
proof -
  have gen: "mset (shuffle rnd (xs @ xs)) = mset xs + mset xs
      \<and> length (shuffle rnd (xs @ xs)) = 2 * length xs" for xs :: "'b list"
    using shuffle_perm [OF assms, of "xs @ xs"] by simp
  have b: "mset (board_icons (createBoard rnd s)) = mset icons + mset icons"
    using gen [of icons] by (simp add: createBoard_board_icons)
  have l: "length (cards (createBoard rnd s)) = 2 * length icons"
    using gen [of icons] by (simp add: createBoard_cards)
  have d: "distinct icons" by (simp add: icons_def)
  have "\<forall>ic \<in> set icons. count (mset (board_icons (createBoard rnd s))) ic = 2"
    using b d by (simp add: distinct_count_atmost_1)
  with gen [of al] b l show ?thesis by (simp add: icons_def)
qed

theorem board_is_permutation_witness:
  "random_ok (\<lambda>k. if k = 9 then 5146971002709138 / 2 ^ 53 else 0)
   \<and> board_icons (createBoard (\<lambda>k. if k = 9 then 5146971002709138 / 2 ^ 53 else 0) init) =
       [''fa-star'', ''fa-bolt'', ''fa-moon'', ''fa-fire'', ''fa-gem'', ''fa-music'',
        ''fa-leaf'', ''fa-heart'', ''fa-star'', ''fa-bolt'', ''fa-moon'', ''fa-leaf'',
        ''fa-gem'', ''fa-fire'', ''fa-music'', ''fa-heart'']
   \<and> mset (board_icons (createBoard (\<lambda>k. if k = 9 then 5146971002709138 / 2 ^ 53 else 0) init)) = mset icons + mset icons"
proof -
  have r: "random_ok (\<lambda>k. if k = 9 then 5146971002709138 / 2 ^ 53 else 0)"
    using nearest_to_four_sevenths by (simp add: random_ok_def to_double_zero)
  have "board_icons (createBoard (\<lambda>k. if k = 9 then 5146971002709138 / 2 ^ 53 else 0) init) =
       [''fa-star'', ''fa-bolt'', ''fa-moon'', ''fa-fire'', ''fa-gem'', ''fa-music'',
        ''fa-leaf'', ''fa-heart'', ''fa-star'', ''fa-bolt'', ''fa-moon'', ''fa-leaf'',
        ''fa-gem'', ''fa-fire'', ''fa-music'', ''fa-heart'']"
    by code_simp
  moreover from board_is_permutation [OF r, of "[] :: nat list" init]
  have "mset (board_icons (createBoard (\<lambda>k. if k = 9 then 5146971002709138 / 2 ^ 53 else 0) init)) = mset icons + mset icons"
    by blast
  ultimately show ?thesis using r by blast
qed

section \<open>What the timer callbacks leave alone\<close>

lemmas cb_defs = run_cb_def tick_def rearm_def revert_cb_def endGame_def clearInterval_def
  resetTurn_def remove_flipped_def

lemma run_cb_fields [simp]:
  "cards (run_cb t s) = cards s"
  "moves (run_cb t s) = moves s"
  "matchedCount (run_cb t s) = matchedCount s"
  "timer (run_cb t s) = timer s"
  "gameStarted (run_cb t s) = gameStarted s"
  "nextId (run_cb t s) = nextId s"
  "fresh (run_cb t s) = fresh s"
  "now (run_cb t s) = now s"
  "movesEl (run_cb t s) = movesEl s"
  by (simp_all add: cb_defs split: callback.splits option.splits)

lemma run_cb_heap [simp]:
  "matched (heap (run_cb t s) a) = matched (heap s a)"
  "icon (heap (run_cb t s) a) = icon (heap s a)"
  by (simp_all add: cb_defs split: callback.splits option.splits)

lemma fire_cases:
  obtains "fire k s = s"
  | t where "t \<in> set (pending s)" "tid t = k" "fire k s = run_cb t s"
proof (cases "find (\<lambda>t. tid t = k) (pending s)")
  case None
  then have "fire k s = s" by (simp add: fire_def)
  then show ?thesis by (rule that(1))
next
  case (Some t)
  then have "t \<in> set (pending s)" "tid t = k"
    by (auto simp: find_Some_iff)
  moreover from Some have "fire k s = run_cb t s" by (simp add: fire_def)
  ultimately show ?thesis by (rule that(2))
qed

lemma fold_fire_induct:
  assumes "P s"
    and "\<And>t u. P u \<Longrightarrow> t \<in> set (pending u) \<Longrightarrow> P (run_cb t u)"
  shows "P (fold fire ks s)"
  using assms(1)
proof (induction ks arbitrary: s)
  case Nil
  then show ?case by simp
next
  case (Cons k ks)
  have "P (fire k s)"
    by (rule fire_cases [of k s]) (simp_all add: Cons.prems assms(2))
  then show ?case by (simp add: Cons.IH)
qed

lemma ms_step_induct:
  assumes "P (s\<lparr>now := now s + 1\<rparr>)"
    and "\<And>t u. P u \<Longrightarrow> t \<in> set (pending u) \<Longrightarrow> P (run_cb t u)"
  shows "P (ms_step s)"
  unfolding ms_step_def Let_def by (rule fold_fire_induct) (fact assms)+

lemma advance_induct:
  assumes "P s"
    and "\<And>u. P u \<Longrightarrow> P (u\<lparr>now := now u + 1\<rparr>)"
    and "\<And>t u. P u \<Longrightarrow> t \<in> set (pending u) \<Longrightarrow> P (run_cb t u)"
  shows "P (advance d s)"
  using assms(1)
proof (induction d arbitrary: s)
  case 0
  then show ?case by simp
next
  case (Suc d)
  have "P (ms_step s)"
    by (rule ms_step_induct) (rule assms(2), rule Suc.prems, erule (1) assms(3))
  then show ?case by (simp add: Suc.IH)
qed

lemma advance_fields [simp]:
  "cards (advance d s) = cards s"
  "moves (advance d s) = moves s"
  "matchedCount (advance d s) = matchedCount s"
  "timer (advance d s) = timer s"
  "gameStarted (advance d s) = gameStarted s"
  "nextId (advance d s) = nextId s"
  "fresh (advance d s) = fresh s"
  "movesEl (advance d s) = movesEl s"
  by (rule advance_induct; simp)+

lemma advance_heap [simp]:
  "matched (heap (advance d s) a) = matched (heap s a)"
  "icon (heap (advance d s) a) = icon (heap s a)"
  by (rule advance_induct; simp)+

lemma now_ms_step [simp]: "now (ms_step s) = now s + 1"
  by (rule ms_step_induct) simp_all

lemma now_advance [simp]: "now (advance d s) = now s + d"
  by (induction d arbitrary: s) simp_all

lemma advance_add: "advance (a + b) s = advance b (advance a s)"
  by (induction a arbitrary: s) simp_all

lemma advance_Suc_right: "advance (Suc d) s = ms_step (advance d s)"
  using advance_add [of d 1 s] by simp

lemma exec_append: "exec (es @ fs) s = exec fs (exec es s)"
  by (induction es arbitrary: s) simp_all

section \<open>The move counter\<close>

lemma moves_click:
  "moves (step (Click i) s) =
     (if i < length (cards s) \<and> \<not> lockBoard s \<and> status_of (tile s i) = Hidden
         \<and> length (flippedCards s) = 1
      then moves s + 1 else moves s)"
  by (auto simp: tile_def status_of_def flipCard_def moves_checkForMatch Let_def
        startTimer_def setInterval_def setTimeout_def add_flipped_def)

text \<open>
  C3: a click raises \<open>moves\<close> by exactly one when it is accepted as the second reveal of a
  turn (whatever the two icons are), and leaves \<open>moves\<close> alone in every other case. Along
  any sequence of clicks and waits, \<open>moves\<close> therefore grows by the number of second
  reveals in it.
\<close>

theorem moves_counts_second_reveals:
  "moves (step (Click i) s) =
     (if i < length (cards s) \<and> \<not> lockBoard s \<and> status_of (tile s i) = Hidden
         \<and> length (flippedCards s) = 1
      then moves s + 1 else moves s)
   \<and> (restart_free es \<longrightarrow> moves (exec es s) = moves s + completed_turns es s)"
proof
  show "moves (step (Click i) s) =
     (if i < length (cards s) \<and> \<not> lockBoard s \<and> status_of (tile s i) = Hidden
         \<and> length (flippedCards s) = 1
      then moves s + 1 else moves s)"
    by (rule moves_click)
next
  have "restart_free es \<Longrightarrow> moves (exec es s) = moves s + completed_turns es s"
  proof (induction es arbitrary: s)
    case Nil
    then show ?case by simp
  next
    case (Cons e es)
    then have e: "\<not> is_restart e" and es: "restart_free es"
      by (simp_all add: restart_free_def)
    have "moves (step e s) = moves s + (if second_reveal s e then 1 else 0)"
    proof (cases e)
      case (Click i)
      then show ?thesis using moves_click [of i s] by (simp add: second_reveal_def)
    next
      case (Restart rnd)
      with e show ?thesis by simp
    next
      case (Wait d)
      then show ?thesis by (simp add: second_reveal_def)
    qed
    with Cons.IH [OF es, of "step e s"] show ?case by simp
  qed
  then show "restart_free es \<longrightarrow> moves (exec es s) = moves s + completed_turns es s" ..
qed

theorem moves_counts_second_reveals_witness:
  "restart_free [Click 0, Click 0, Click 1, Click 2, Wait 900, Click 2, Click 10]
   \<and> completed_turns [Click 0, Click 0, Click 1, Click 2] (boot (\<lambda>k. 0)) = 1
   \<and> moves (exec [Click 0, Click 0, Click 1, Click 2] (boot (\<lambda>k. 0))) = 1
   \<and> moves (exec [Click 0, Click 0, Click 1, Click 2, Wait 900, Click 2, Click 10]
              (boot (\<lambda>k. 0)))
       = completed_turns [Click 0, Click 0, Click 1, Click 2, Wait 900, Click 2, Click 10]
           (boot (\<lambda>k. 0))"
proof -
  have r: "restart_free [Click 0, Click 0, Click 1, Click 2, Wait 900, Click 2, Click 10]"
    "restart_free [Click 0, Click 0, Click 1, Click 2]"
    by (simp_all add: restart_free_def)
  have c: "completed_turns [Click 0, Click 0, Click 1, Click 2] (boot (\<lambda>k. 0)) = 1"
    and m: "moves (boot (\<lambda>k. 0)) = 0"
    by code_simp+
  from moves_counts_second_reveals
         [of _ "boot (\<lambda>k. 0)" "[Click 0, Click 0, Click 1, Click 2, Wait 900, Click 2, Click 10]"]
       moves_counts_second_reveals [of _ "boot (\<lambda>k. 0)" "[Click 0, Click 0, Click 1, Click 2]"]
       r c m
  show ?thesis by (simp only: add_0 simp_thms)
qed

section \<open>Matched tiles stay matched\<close>

lemma flipCard_heap [simp]:
  "icon (heap (flipCard c s) a) = icon (heap s a)"
  by (simp add: game_defs Let_def split: list.splits)

lemma checkForMatch_keeps_matched:
  "matched (heap s a) \<Longrightarrow> matched (heap (checkForMatch s) a)"
  by (auto simp: checkForMatch_def handleMatch_def handleMismatch_def resetTurn_def
        setTimeout_def add_matched_def Let_def split: list.splits)

lemma flipCard_keeps_matched: "matched (heap s a) \<Longrightarrow> matched (heap (flipCard c s) a)"
  by (auto simp: flipCard_def startTimer_def setInterval_def setTimeout_def add_flipped_def Let_def
        intro!: checkForMatch_keeps_matched)

lemma step_keeps_matched:
  "\<not> is_restart e \<Longrightarrow>
     cards (step e s) = cards s \<and> (matched (heap s a) \<longrightarrow> matched (heap (step e s) a))"
  by (cases e) (simp_all add: cards_flipCard flipCard_keeps_matched)

lemma exec_keeps_matched:
  "restart_free es \<Longrightarrow>
     cards (exec es s) = cards s \<and> (matched (heap s a) \<longrightarrow> matched (heap (exec es s) a))"
proof (induction es arbitrary: s)
  case Nil
  then show ?case by simp
next
  case (Cons e es)
  then have e: "\<not> is_restart e" and es: "restart_free es"
    by (simp_all add: restart_free_def)
  from step_keeps_matched [OF e, of s a] Cons.IH [OF es, of "step e s"]
  show ?case by simp
qed

lemma status_Matched [simp]: "(status_of x = Matched) = matched x"
  by (simp add: status_of_def)

text \<open>
  C8: within a game, that is along any run without a restart, a tile that is matched
  stays matched (so it is never again hidden or revealed), and it stays the same tile.
\<close>

theorem matched_is_permanent:
  assumes "restart_free es" and "status_of (tile s i) = Matched"
  shows "status_of (tile (exec es s) i) = Matched \<and> cards (exec es s) = cards s"
  using exec_keeps_matched [OF assms(1), of s "cards s ! i"] assms(2)
  by (simp add: tile_def)

theorem matched_is_permanent_witness:
  "restart_free [Click 0, Click 1, Click 2, Wait 900, Click 0]
   \<and> status_of (tile (exec [Click 0, Click 8] (boot (\<lambda>k. 0))) 0) = Matched
   \<and> status_of (tile (exec [Click 0, Click 1, Click 2, Wait 900, Click 0]
                         (exec [Click 0, Click 8] (boot (\<lambda>k. 0)))) 0) = Matched"
proof -
  have a: "restart_free [Click 0, Click 1, Click 2, Wait 900, Click 0]"
    by (simp add: restart_free_def)
  have b: "status_of (tile (exec [Click 0, Click 8] (boot (\<lambda>k. 0))) 0) = Matched"
    by code_simp
  from matched_is_permanent [OF a b] a b show ?thesis by blast
qed

section \<open>The matched counter\<close>

lemma fold_add_card_other [simp]:
  "flippedCards (fold add_card ics s) = flippedCards s"
  "matchedCount (fold add_card ics s) = matchedCount s"
  "moves (fold add_card ics s) = moves s"
  "movesEl (fold add_card ics s) = movesEl s"
  "lockBoard (fold add_card ics s) = lockBoard s"
  "timer (fold add_card ics s) = timer s"
  "time (fold add_card ics s) = time s"
  "timeEl (fold add_card ics s) = timeEl s"
  "gameStarted (fold add_card ics s) = gameStarted s"
  "winOverlay (fold add_card ics s) = winOverlay s"
  "finalMoves (fold add_card ics s) = finalMoves s"
  "finalTime (fold add_card ics s) = finalTime s"
  "pending (fold add_card ics s) = pending s"
  "now (fold add_card ics s) = now s"
  "nextId (fold add_card ics s) = nextId s"
  by (induction ics arbitrary: s; simp add: add_card_def)+

lemma createBoard_fields [simp]:
  "flippedCards (createBoard rnd s) = []"
  "matchedCount (createBoard rnd s) = 0"
  "moves (createBoard rnd s) = 0"
  "movesEl (createBoard rnd s) = 0"
  "lockBoard (createBoard rnd s) = False"
  "timer (createBoard rnd s) = None"
  "time (createBoard rnd s) = 0"
  "timeEl (createBoard rnd s) = 0"
  "gameStarted (createBoard rnd s) = False"
  "winOverlay (createBoard rnd s) = False"
  "finalMoves (createBoard rnd s) = finalMoves s"
  "finalTime (createBoard rnd s) = finalTime s"
  "now (createBoard rnd s) = now s"
  "nextId (createBoard rnd s) = nextId s"
  by (simp_all add: createBoard_def resetTimer_def clearInterval_def Let_def
        split: option.splits)

lemma createBoard_pending:
  "pending (createBoard rnd s) =
     (case timer s of None \<Rightarrow> pending s | Some k \<Rightarrow> filter (\<lambda>t. tid t \<noteq> k) (pending s))"
  by (simp add: createBoard_def resetTimer_def clearInterval_def Let_def split: option.splits)

lemma createBoard_fresh:
  "fresh (createBoard rnd s) = fresh s + length (shuffle rnd (icons @ icons))"
  by (simp add: createBoard_def resetTimer_def clearInterval_def Let_def fold_add_card_fresh
        split: option.splits)

lemma createBoard_heap_old: "a < fresh s \<Longrightarrow> heap (createBoard rnd s) a = heap s a"
  by (simp add: createBoard_def resetTimer_def clearInterval_def Let_def fold_add_card_heap_old
        split: option.splits)

lemma createBoard_new_cards:
  assumes "c \<in> set (cards (createBoard rnd s))"
  shows "\<not> flipped (heap (createBoard rnd s) c) \<and> \<not> matched (heap (createBoard rnd s) c)"
proof -
  from assms obtain n where "n < length (shuffle rnd (icons @ icons))" "c = fresh s + n"
    by (auto simp: createBoard_cards intro: that [of "c - fresh s"])
  then show ?thesis by (simp add: createBoard_heap_new)
qed

lemma matched_tiles_createBoard [simp]: "matched_tiles (createBoard rnd s) = []"
  unfolding matched_tiles_def by (simp add: filter_empty_conv createBoard_new_cards)

lemma count_inv_createBoard: "count_inv (createBoard rnd s)"
  by (simp add: count_inv_def) (simp add: createBoard_cards)

lemma matched_tiles_cong:
  "cards s' = cards s \<Longrightarrow> (\<And>c. matched (heap s' c) = matched (heap s c)) \<Longrightarrow>
     matched_tiles s' = matched_tiles s"
  by (simp add: matched_tiles_def)

lemma count_inv_irrelevant [simp]:
  "count_inv (s\<lparr>now := n\<rparr>) = count_inv s"
  "count_inv (s\<lparr>pending := p\<rparr>) = count_inv s"
  "count_inv (s\<lparr>nextId := n\<rparr>) = count_inv s"
  "count_inv (s\<lparr>lockBoard := b\<rparr>) = count_inv s"
  "count_inv (s\<lparr>moves := n\<rparr>) = count_inv s"
  "count_inv (s\<lparr>movesEl := n\<rparr>) = count_inv s"
  "count_inv (s\<lparr>time := n\<rparr>) = count_inv s"
  "count_inv (s\<lparr>timeEl := n\<rparr>) = count_inv s"
  "count_inv (s\<lparr>timer := h\<rparr>) = count_inv s"
  "count_inv (s\<lparr>gameStarted := b\<rparr>) = count_inv s"
  "count_inv (s\<lparr>finalMoves := n\<rparr>) = count_inv s"
  "count_inv (s\<lparr>finalTime := n\<rparr>) = count_inv s"
  "count_inv (s\<lparr>winOverlay := b\<rparr>) = count_inv s"
  by (simp_all add: count_inv_def matched_tiles_def)

lemma matched_tiles_add_matched:
  "distinct (cards s) \<Longrightarrow> c \<in> set (cards s) \<Longrightarrow> \<not> matched (heap s c) \<Longrightarrow>
     length (matched_tiles (add_matched c s)) = Suc (length (matched_tiles s))"
proof -
  have "distinct cs \<Longrightarrow> c \<in> set cs \<Longrightarrow> \<not> matched (h c) \<Longrightarrow>
      length (filter (\<lambda>x. matched ((h(c := (h c)\<lparr>matched := True\<rparr>)) x)) cs) =
        Suc (length (filter (\<lambda>x. matched (h x)) cs))" for cs and h :: "nat \<Rightarrow> card_el"
  proof (induction cs)
    case Nil
    then show ?case by simp
  next
    case (Cons x cs)
    show ?case
    proof (cases "x = c")
      case True
      with Cons.prems have "c \<notin> set cs" by simp
      then have "filter (\<lambda>x. matched ((h(c := (h c)\<lparr>matched := True\<rparr>)) x)) cs =
          filter (\<lambda>x. matched (h x)) cs"
        by (intro filter_cong) auto
      with True Cons.prems show ?thesis by simp
    next
      case False
      with Cons show ?thesis by simp
    qed
  qed
  then show "distinct (cards s) \<Longrightarrow> c \<in> set (cards s) \<Longrightarrow> \<not> matched (heap s c) \<Longrightarrow>
     length (matched_tiles (add_matched c s)) = Suc (length (matched_tiles s))"
    by (simp add: matched_tiles_def add_matched_def)
qed

lemma count_inv_handleMatch:
  assumes "count_inv s" and "flippedCards s = [card1, card2]"
  shows "count_inv (handleMatch card1 card2 s)"
proof -
  let ?s1 = "add_matched card1 s"
  let ?s2 = "add_matched card2 ?s1"
  from assms have d: "distinct (cards s)" and in1: "card1 \<in> set (cards s)"
    and in2: "card2 \<in> set (cards s)" and ne: "card1 \<noteq> card2"
    and m1: "\<not> matched (heap s card1)" and m2: "\<not> matched (heap s card2)"
    and cnt: "matchedCount s = length (matched_tiles s)" and ev: "even (matchedCount s)"
    by (auto simp: count_inv_def)
  have "length (matched_tiles ?s1) = Suc (length (matched_tiles s))"
    using d in1 m1 by (rule matched_tiles_add_matched)
  moreover have "length (matched_tiles ?s2) = Suc (length (matched_tiles ?s1))"
    using d in2 m2 ne by (intro matched_tiles_add_matched) (simp_all add: add_matched_def)
  ultimately have "length (matched_tiles ?s2) = matchedCount s + 2"
    using cnt by simp
  moreover have "matched_tiles (handleMatch card1 card2 s) = matched_tiles ?s2"
    by (rule matched_tiles_cong)
       (simp_all add: handleMatch_def resetTurn_def setTimeout_def add_matched_def Let_def)
  moreover have "matchedCount (handleMatch card1 card2 s) = matchedCount s + 2"
    "flippedCards (handleMatch card1 card2 s) = []"
    "cards (handleMatch card1 card2 s) = cards s"
    by (simp_all add: handleMatch_def resetTurn_def setTimeout_def add_matched_def Let_def)
  ultimately show ?thesis using d ev by (simp add: count_inv_def)
qed

lemma count_inv_checkForMatch:
  assumes "count_inv s" and "length (flippedCards s) = 2"
  shows "count_inv (checkForMatch s)"
proof -
  from assms(2) obtain card1 card2 where fl: "flippedCards s = [card1, card2]"
    by (cases "flippedCards s"; cases "tl (flippedCards s)") auto
  let ?s1 = "s\<lparr>lockBoard := True\<rparr>"
  have inv1: "count_inv ?s1" using assms(1) by simp
  show ?thesis
  proof (cases "icon (heap s card1) = icon (heap s card2)")
    case True
    then have "checkForMatch s = handleMatch card1 card2 ?s1"
      by (simp add: checkForMatch_def fl)
    with count_inv_handleMatch [OF inv1, of card1 card2] fl show ?thesis by simp
  next
    case False
    then have "checkForMatch s = setTimeout (Revert card1 card2) 900 ?s1"
      by (simp add: checkForMatch_def handleMismatch_def fl)
    with inv1 show ?thesis by (simp add: setTimeout_def)
  qed
qed

lemma count_inv_flipCard:
  assumes "count_inv s" and "c \<in> set (cards s)"
  shows "count_inv (flipCard c s)"
proof (cases "lockBoard s \<or> flipped (heap s c) \<or> matched (heap s c)")
  case True
  then show ?thesis using assms(1) by (simp add: flipCard_ignored)
next
  case False
  let ?s3 = "(add_flipped c (startTimer s))\<lparr>flippedCards := flippedCards s @ [c]\<rparr>"
  have "matched_tiles ?s3 = matched_tiles s"
    by (rule matched_tiles_cong) (simp_all add: add_flipped_def startTimer_def setInterval_def setTimeout_def)
  moreover have "cards ?s3 = cards s" "matchedCount ?s3 = matchedCount s"
    "\<And>a. flipped (heap ?s3 a) = (a = c \<or> flipped (heap s a))"
    "\<And>a. matched (heap ?s3 a) = matched (heap s a)"
    by (simp_all add: add_flipped_def startTimer_def setInterval_def setTimeout_def)
  ultimately have inv3: "count_inv ?s3"
    using assms False by (auto simp: count_inv_def)
  let ?s4 = "?s3\<lparr>moves := moves ?s3 + 1, movesEl := moves ?s3 + 1\<rparr>"
  have inv4: "count_inv ?s4" using inv3 by simp
  have "flipCard c s = (if length (flippedCards s) = 1 then checkForMatch ?s4 else ?s3)"
    using False
    by (simp add: flipCard_def Let_def add_flipped_def startTimer_def setInterval_def setTimeout_def)
  then show ?thesis using inv3 count_inv_checkForMatch [OF inv4] by simp
qed

lemma count_inv_run_cb: "count_inv s \<Longrightarrow> count_inv (run_cb t s)"
proof (cases "cb t")
  case Tick
  then show "count_inv s \<Longrightarrow> ?thesis"
    by (simp add: run_cb_def tick_def rearm_def)
next
  case EndGame
  then show "count_inv s \<Longrightarrow> ?thesis"
    by (simp add: run_cb_def endGame_def clearInterval_def split: option.splits)
next
  case (Revert card1 card2)
  assume inv: "count_inv s"
  have "matched_tiles (run_cb t s) = matched_tiles s"
    by (rule matched_tiles_cong) simp_all
  moreover have "flippedCards (run_cb t s) = []"
    using Revert by (simp add: run_cb_def revert_cb_def resetTurn_def remove_flipped_def)
  ultimately show ?thesis using inv by (auto simp: count_inv_def)
qed

lemma count_inv_advance: "count_inv s \<Longrightarrow> count_inv (advance d s)"
  by (rule advance_induct) (simp_all add: count_inv_run_cb)

lemma count_inv_step: "count_inv s \<Longrightarrow> count_inv (step e s)"
  by (cases e) (simp_all add: count_inv_flipCard count_inv_createBoard count_inv_advance)

lemma count_inv_exec: "count_inv s \<Longrightarrow> count_inv (exec es s)"
  by (induction es arbitrary: s) (simp_all add: count_inv_step)

lemma count_inv_reachable: "count_inv (exec es (boot rnd))"
  unfolding boot_def by (rule count_inv_exec) (rule count_inv_createBoard)

lemma matchedCount_checkForMatch:
  "matchedCount (checkForMatch s) =
     (case flippedCards s of
        card1 # card2 # rest \<Rightarrow>
          if icon (heap s card1) = icon (heap s card2) then matchedCount s + 2
          else matchedCount s
      | _ \<Rightarrow> matchedCount s)"
  by (simp add: checkForMatch_def handleMatch_def handleMismatch_def resetTurn_def
        setTimeout_def add_matched_def Let_def split: list.splits)

lemma matchedCount_click:
  "matchedCount (step (Click i) s) = matchedCount s + (if resolves_match s i then 2 else 0)"
proof (cases "i < length (cards s) \<and> \<not> lockBoard s \<and> status_of (tile s i) = Hidden")
  case False
  then show ?thesis
    by (auto simp: resolves_match_def tile_def status_of_def flipCard_ignored
          split: if_splits)
next
  case True
  let ?c = "cards s ! i"
  from True have acc: "\<not> lockBoard s" "\<not> flipped (heap s ?c)" "\<not> matched (heap s ?c)"
    by (simp_all add: tile_def status_of_def split: if_splits)
  show ?thesis
  proof (cases "flippedCards s")
    case Nil
    with True acc show ?thesis
      by (simp add: resolves_match_def flipCard_def Let_def add_flipped_def startTimer_def setInterval_def
            setTimeout_def)
  next
    case (Cons card1 rest)
    show ?thesis
    proof (cases rest)
      case Nil
      with Cons True acc show ?thesis
        by (simp add: resolves_match_def flipCard_def Let_def add_flipped_def startTimer_def setInterval_def
            setTimeout_def matchedCount_checkForMatch tile_def)
    next
      case (Cons card2 rest')
      with \<open>flippedCards s = card1 # rest\<close> True acc show ?thesis
        by (simp add: resolves_match_def flipCard_def Let_def add_flipped_def startTimer_def setInterval_def
            setTimeout_def)
    qed
  qed
qed

text \<open>
  C10: in every state the page can reach (any events after the initial \<open>createBoard\<close>),
  \<open>matchedCount\<close> is the number of cards on the board that carry the class \<open>matched\<close>, and
  it is even. It is 0 after \<open>createBoard\<close>, the passing of time does not change it, and a
  click adds 2 exactly when it resolves a match and leaves it unchanged otherwise.
\<close>

theorem matchedCount_counts_matched_tiles:
  "matchedCount (exec es (boot rnd)) = length (matched_tiles (exec es (boot rnd)))
   \<and> even (matchedCount (exec es (boot rnd)))
   \<and> matchedCount (boot rnd) = 0
   \<and> matchedCount (step (Restart rnd') s) = 0
   \<and> matchedCount (step (Wait d) s) = matchedCount s
   \<and> matchedCount (step (Click i) s) = matchedCount s + (if resolves_match s i then 2 else 0)"
proof -
  have "count_inv (exec es (boot rnd))" by (rule count_inv_reachable)
  then have "matchedCount (exec es (boot rnd)) = length (matched_tiles (exec es (boot rnd)))"
    and "even (matchedCount (exec es (boot rnd)))"
    by (auto simp: count_inv_def)
  moreover have "matchedCount (boot rnd) = 0" "matchedCount (step (Restart rnd') s) = 0"
    "matchedCount (step (Wait d) s) = matchedCount s"
    by (simp_all add: boot_def)
  ultimately show ?thesis using matchedCount_click [of i s] by blast
qed

theorem matchedCount_counts_matched_tiles_witness:
  "resolves_match (exec [Click 0] (boot (\<lambda>k. 0))) 8
   \<and> matchedCount (exec [Click 0, Click 8] (boot (\<lambda>k. 0))) = 2
   \<and> length (matched_tiles (exec [Click 0, Click 8] (boot (\<lambda>k. 0)))) = 2"
proof -
  have r: "resolves_match (exec [Click 0] (boot (\<lambda>k. 0))) 8"
    and m: "matchedCount (exec [Click 0] (boot (\<lambda>k. 0))) = 0"
    by code_simp+
  have e: "exec [Click 0, Click 8] (boot (\<lambda>k. 0)) = step (Click 8) (exec [Click 0] (boot (\<lambda>k. 0)))"
    by simp
  from matchedCount_counts_matched_tiles
         [where es = "[Click 0, Click 8]" and rnd = "\<lambda>k. 0" and i = 8
            and s = "exec [Click 0] (boot (\<lambda>k. 0))"] r m
  show ?thesis unfolding e by simp
qed

section \<open>Restarting twice\<close>

lemma length_shuffle_loop: "length (shuffle_loop rnd k i xs) = length xs"
  by (induction i arbitrary: k xs) (simp_all add: Let_def length_swap)

lemma length_shuffle [simp]: "length (shuffle rnd xs) = length xs"
  by (simp add: shuffle_def length_shuffle_loop)

lemma cleared_createBoard: "cleared (createBoard rnd s)"
proof -
  have "status_of (heap (createBoard rnd s) c) = Hidden" if "c \<in> set (cards (createBoard rnd s))" for c
    using createBoard_new_cards [OF that] by (simp add: status_of_def)
  then show ?thesis by (simp add: cleared_def list_all_iff)
qed

lemma ticks_owned_not_ticking:
  "ticks_owned s \<Longrightarrow> \<not> ticking (createBoard rnd s)"
  by (auto simp: ticks_owned_def ticking_def list_all_iff list_ex_iff createBoard_pending
        split: option.splits)

lemma ticks_owned_createBoard: "ticks_owned s \<Longrightarrow> ticks_owned (createBoard rnd s)"
  by (auto simp: ticks_owned_def list_all_iff createBoard_pending split: option.splits)

lemma ticks_owned_checkForMatch: "ticks_owned s \<Longrightarrow> ticks_owned (checkForMatch s)"
  by (auto simp: ticks_owned_def list_all_iff checkForMatch_def handleMatch_def
        handleMismatch_def resetTurn_def setTimeout_def add_matched_def Let_def
        split: list.splits)

lemma ticks_owned_flipCard: "ticks_owned s \<Longrightarrow> ticks_owned (flipCard c s)"
proof -
  assume o: "ticks_owned s"
  have "ticks_owned (startTimer s)"
    using o by (auto simp: ticks_owned_def list_all_iff startTimer_def setInterval_def setTimeout_def)
  then have "ticks_owned ((add_flipped c (startTimer s))
      \<lparr>flippedCards := flippedCards (startTimer s) @ [c]\<rparr>)" (is "ticks_owned ?s3")
    by (simp add: ticks_owned_def add_flipped_def)
  then have "ticks_owned (?s3\<lparr>moves := moves ?s3 + 1, movesEl := moves ?s3 + 1\<rparr>)"
    by (simp add: ticks_owned_def)
  from ticks_owned_checkForMatch [OF this] \<open>ticks_owned ?s3\<close> o
  show "ticks_owned (flipCard c s)"
    by (simp add: flipCard_def Let_def add_flipped_def)
qed

lemma ticks_owned_run_cb: "ticks_owned s \<Longrightarrow> ticks_owned (run_cb t s)"
  by (cases "cb t")
     (auto simp: ticks_owned_def list_all_iff cb_defs split: option.splits)

lemma ticks_owned_advance: "ticks_owned s \<Longrightarrow> ticks_owned (advance d s)"
  by (rule advance_induct) (simp_all add: ticks_owned_run_cb, simp add: ticks_owned_def)

lemma ticks_owned_step: "ticks_owned s \<Longrightarrow> ticks_owned (step e s)"
  by (cases e) (simp_all add: ticks_owned_flipCard ticks_owned_createBoard ticks_owned_advance)

lemma ticks_owned_exec: "ticks_owned s \<Longrightarrow> ticks_owned (exec es s)"
  by (induction es arbitrary: s) (simp_all add: ticks_owned_step)

lemma ticks_owned_reachable: "ticks_owned (exec es (boot rnd))"
proof -
  have "ticks_owned init" by (simp add: ticks_owned_def init_def)
  then show ?thesis unfolding boot_def
    by (intro ticks_owned_exec ticks_owned_createBoard)
qed

text \<open>
  C9: restarting twice leaves the same cleared state as restarting once. After either,
  every tile is hidden, the turn is empty, the lock is free, the counters are zero and
  the timer variables are reset; both boards have the same number of tiles and the same
  icons up to order; and everything \<open>createBoard\<close> does not touch (the clock, the
  timer queue, the texts of the win overlay) is the same after the second restart as
  after the first. In every reachable state the interval callback is cancelled by the
  restart, so that the elapsed-time counter is stopped.
\<close>

theorem restart_twice_same_cleared_state:
  "cleared (createBoard r1 s) \<and> cleared (createBoard r2 (createBoard r1 s))
   \<and> length (cards (createBoard r2 (createBoard r1 s))) = length (cards (createBoard r1 s))
   \<and> (random_ok r1 \<and> random_ok r2 \<longrightarrow>
        mset (board_icons (createBoard r2 (createBoard r1 s))) =
          mset (board_icons (createBoard r1 s)))
   \<and> pending (createBoard r2 (createBoard r1 s)) = pending (createBoard r1 s)
   \<and> now (createBoard r2 (createBoard r1 s)) = now (createBoard r1 s)
   \<and> nextId (createBoard r2 (createBoard r1 s)) = nextId (createBoard r1 s)
   \<and> finalMoves (createBoard r2 (createBoard r1 s)) = finalMoves (createBoard r1 s)
   \<and> finalTime (createBoard r2 (createBoard r1 s)) = finalTime (createBoard r1 s)
   \<and> (ticks_owned s \<longrightarrow>
        \<not> ticking (createBoard r1 s) \<and> \<not> ticking (createBoard r2 (createBoard r1 s)))
   \<and> \<not> ticking (createBoard r1 (exec es (boot rnd)))"
proof -
  have "mset (board_icons (createBoard r2 (createBoard r1 s))) =
          mset (board_icons (createBoard r1 s))" if "random_ok r1" "random_ok r2"
    using shuffle_perm [OF that(1), of "icons @ icons"] shuffle_perm [OF that(2), of "icons @ icons"]
    by (simp add: createBoard_board_icons)
  moreover have "\<not> ticking (createBoard r1 s) \<and> \<not> ticking (createBoard r2 (createBoard r1 s))"
    if "ticks_owned s"
    using that by (simp add: ticks_owned_not_ticking ticks_owned_createBoard)
  moreover have "\<not> ticking (createBoard r1 (exec es (boot rnd)))"
    by (rule ticks_owned_not_ticking) (rule ticks_owned_reachable)
  moreover have "pending (createBoard r2 (createBoard r1 s)) = pending (createBoard r1 s)"
    by (simp add: createBoard_pending [of r2])
  ultimately show ?thesis
    by (simp add: cleared_createBoard createBoard_cards)
qed

theorem restart_twice_same_cleared_state_witness:
  "random_ok (\<lambda>k. 0) \<and> random_ok (\<lambda>k. 1 / 2)
   \<and> ticks_owned (exec [Click 0, Click 1] (boot (\<lambda>k. 0)))
   \<and> ticking (exec [Click 0, Click 1] (boot (\<lambda>k. 0)))
   \<and> \<not> cleared (exec [Click 0, Click 1] (boot (\<lambda>k. 0)))
   \<and> cleared (createBoard (\<lambda>k. 1 / 2) (createBoard (\<lambda>k. 0) (exec [Click 0, Click 1] (boot (\<lambda>k. 0)))))
   \<and> \<not> ticking (createBoard (\<lambda>k. 1 / 2) (createBoard (\<lambda>k. 0) (exec [Click 0, Click 1] (boot (\<lambda>k. 0)))))
   \<and> mset (board_icons (createBoard (\<lambda>k. 1 / 2) (createBoard (\<lambda>k. 0) (exec [Click 0, Click 1] (boot (\<lambda>k. 0)))))) =
       mset (board_icons (createBoard (\<lambda>k. 0) (exec [Click 0, Click 1] (boot (\<lambda>k. 0)))))"
proof -
  have r: "random_ok (\<lambda>k. 0)" "random_ok (\<lambda>k. 1 / 2)"
    by (simp_all add: random_ok_def to_double_half to_double_zero)
  have o: "ticks_owned (exec [Click 0, Click 1] (boot (\<lambda>k. 0)))"
    and t: "ticking (exec [Click 0, Click 1] (boot (\<lambda>k. 0)))"
    and c: "\<not> cleared (exec [Click 0, Click 1] (boot (\<lambda>k. 0)))"
    by code_simp+
  from restart_twice_same_cleared_state
         [of "\<lambda>k. 0" "exec [Click 0, Click 1] (boot (\<lambda>k. 0))" "\<lambda>k. 1 / 2"] r o t c
  show ?thesis by blast
qed

section \<open>Waiting for a timeout\<close>

lemma sole_timeout_now [simp]: "sole_timeout K e (s\<lparr>now := n\<rparr>) = sole_timeout K e s"
  by (simp add: sole_timeout_def)

lemma none_pending_now [simp]: "none_pending K (s\<lparr>now := n\<rparr>) = none_pending K s"
  by (simp add: none_pending_def)

lemma sole_timeout_other:
  assumes "sole_timeout K e s" and "t \<in> set (pending s)" and "t \<noteq> e"
  shows "tid t \<noteq> tid e" and "\<not> K (cb t)"
  using assms by (auto simp: sole_timeout_def list_all_iff)

lemma sole_timeout_run_cb:
  assumes "sole_timeout K e s" and "t \<in> set (pending s)" and "t \<noteq> e"
  shows "sole_timeout K e (run_cb t s)"
proof -
  note o = sole_timeout_other [OF assms]
  show ?thesis
  proof (cases "cb t")
    case Tick
    with assms(1) o show ?thesis
      by (auto simp: sole_timeout_def list_all_iff run_cb_def tick_def rearm_def image_iff)
  next
    case (Revert card1 card2)
    with assms(1) o show ?thesis
      by (auto simp: sole_timeout_def list_all_iff run_cb_def revert_cb_def resetTurn_def
            remove_flipped_def)
  next
    case EndGame
    with assms(1) o show ?thesis
      by (auto simp: sole_timeout_def list_all_iff run_cb_def endGame_def clearInterval_def
            split: option.splits)
  qed
qed

lemma none_pending_run_cb: "none_pending K s \<Longrightarrow> none_pending K (run_cb t s)"
  by (cases "cb t")
     (auto simp: none_pending_def list_all_iff cb_defs split: option.splits)

lemma none_pending_after:
  assumes "sole_timeout K e s"
  shows "list_all (\<lambda>t. \<not> K (cb t)) (filter (\<lambda>u. tid u \<noteq> tid e) (pending s))"
  using assms by (auto simp: sole_timeout_def list_all_iff)

text \<open>
  While \<open>e\<close> is not among the timers that run, it stays registered, and whatever the other
  kinds of callback preserve is preserved.
\<close>

lemma fold_fire_before:
  assumes "sole_timeout K e s" and "P s" and "tid e \<notin> set ks"
    and step: "\<And>t u. P u \<Longrightarrow> t \<in> set (pending u) \<Longrightarrow> \<not> K (cb t) \<Longrightarrow> P (run_cb t u)"
  shows "sole_timeout K e (fold fire ks s) \<and> P (fold fire ks s)"
  using assms(1-3)
proof (induction ks arbitrary: s)
  case Nil
  then show ?case by simp
next
  case (Cons k ks)
  have "sole_timeout K e (fire k s) \<and> P (fire k s)"
  proof (rule fire_cases [of k s])
    assume "fire k s = s"
    with Cons.prems show ?thesis by simp
  next
    fix t assume t: "t \<in> set (pending s)" "tid t = k" "fire k s = run_cb t s"
    with Cons.prems have "t \<noteq> e" by auto
    from sole_timeout_run_cb [OF Cons.prems(1) t(1) this]
      sole_timeout_other(2) [OF Cons.prems(1) t(1) this] step [OF Cons.prems(2) t(1)] t(3)
    show ?thesis by simp
  qed
  with Cons.IH [of "fire k s"] Cons.prems(3) show ?case by simp
qed

lemma ms_step_before:
  assumes "sole_timeout K e s" and "P s" and "now s + 1 < due e"
    and clock: "\<And>u. P u \<Longrightarrow> P (u\<lparr>now := now u + 1\<rparr>)"
    and step: "\<And>t u. P u \<Longrightarrow> t \<in> set (pending u) \<Longrightarrow> \<not> K (cb t) \<Longrightarrow> P (run_cb t u)"
  shows "sole_timeout K e (ms_step s) \<and> P (ms_step s)"
  unfolding ms_step_def Let_def
proof (rule fold_fire_before [where K = K and P = P])
  show "sole_timeout K e (s\<lparr>now := now s + 1\<rparr>)" using assms(1) by simp
  show "P (s\<lparr>now := now s + 1\<rparr>)" using assms(2) by (rule clock)
  show "tid e \<notin> set (map tid (filter (\<lambda>t. due t \<le> now (s\<lparr>now := now s + 1\<rparr>))
      (pending (s\<lparr>now := now s + 1\<rparr>))))"
    using assms(1,3) by (auto simp: sole_timeout_def list_all_iff)
qed (rule step)

lemma advance_before:
  assumes "sole_timeout K e s" and "P s" and "now s + d < due e"
    and clock: "\<And>u. P u \<Longrightarrow> P (u\<lparr>now := now u + 1\<rparr>)"
    and step: "\<And>t u. P u \<Longrightarrow> t \<in> set (pending u) \<Longrightarrow> \<not> K (cb t) \<Longrightarrow> P (run_cb t u)"
  shows "sole_timeout K e (advance d s) \<and> P (advance d s)"
  using assms(1-3)
proof (induction d arbitrary: s)
  case 0
  then show ?case by simp
next
  case (Suc d)
  have "sole_timeout K e (ms_step s) \<and> P (ms_step s)"
    using Suc.prems by (intro ms_step_before clock step) simp_all
  with Suc.IH [of "ms_step s"] Suc.prems(3) show ?case by simp
qed

text \<open>
  In the millisecond in which \<open>e\<close> is due it runs, once, after the timers registered
  before it and before those registered after it.
\<close>

lemma fold_fire_at:
  assumes "sole_timeout K e s" and "P s" and "tid e \<in> set ks"
    and step: "\<And>t u. P u \<Longrightarrow> t \<in> set (pending u) \<Longrightarrow> \<not> K (cb t) \<Longrightarrow> P (run_cb t u)"
    and run: "\<And>u. sole_timeout K e u \<Longrightarrow> P u \<Longrightarrow> Q (run_cb e u)"
    and after: "\<And>t u. Q u \<Longrightarrow> t \<in> set (pending u) \<Longrightarrow> Q (run_cb t u)"
  shows "Q (fold fire ks s)"
proof -
  from split_list_first [OF assms(3)] obtain xs ys
    where ks: "ks = xs @ tid e # ys" and xs: "tid e \<notin> set xs" by blast
  let ?u = "fold fire xs s"
  from fold_fire_before [where K = K and P = P, OF assms(1,2) xs step]
  have u: "sole_timeout K e ?u" "P ?u" by simp_all
  have "find (\<lambda>t. tid t = tid e) (pending ?u) = Some e"
  proof (cases "find (\<lambda>t. tid t = tid e) (pending ?u)")
    case None
    with u(1) show ?thesis by (auto simp: find_None_iff sole_timeout_def)
  next
    case (Some t)
    then have "t \<in> set (pending ?u)" "tid t = tid e" by (auto simp: find_Some_iff)
    with u(1) have "t = e" by (auto simp: sole_timeout_def list_all_iff)
    with Some show ?thesis by simp
  qed
  then have "fire (tid e) ?u = run_cb e ?u" by (simp add: fire_def)
  with run [OF u] have "Q (fire (tid e) ?u)" by simp
  then have "Q (fold fire ys (fire (tid e) ?u))"
    by (rule fold_fire_induct) (rule after)
  then show ?thesis by (simp add: ks)
qed

lemma ms_step_at:
  assumes "sole_timeout K e s" and "P s" and "due e \<le> now s + 1"
    and clock: "\<And>u. P u \<Longrightarrow> P (u\<lparr>now := now u + 1\<rparr>)"
    and step: "\<And>t u. P u \<Longrightarrow> t \<in> set (pending u) \<Longrightarrow> \<not> K (cb t) \<Longrightarrow> P (run_cb t u)"
    and run: "\<And>u. sole_timeout K e u \<Longrightarrow> P u \<Longrightarrow> Q (run_cb e u)"
    and after: "\<And>t u. Q u \<Longrightarrow> t \<in> set (pending u) \<Longrightarrow> Q (run_cb t u)"
  shows "Q (ms_step s)"
  unfolding ms_step_def Let_def
proof (rule fold_fire_at [where K = K and P = P and Q = Q and e = e])
  show "sole_timeout K e (s\<lparr>now := now s + 1\<rparr>)" using assms(1) by simp
  show "P (s\<lparr>now := now s + 1\<rparr>)" using assms(2) by (rule clock)
  show "tid e \<in> set (map tid (filter (\<lambda>t. due t \<le> now (s\<lparr>now := now s + 1\<rparr>))
      (pending (s\<lparr>now := now s + 1\<rparr>))))"
    using assms(1,3) by (auto simp: sole_timeout_def image_iff)
qed (rule step run after; assumption)+

section \<open>The cool-down after a mismatch\<close>

lemma run_cb_not_revert:
  assumes "\<not> is_revert (cb t)"
  shows "heap (run_cb t s) = heap s" and "lockBoard (run_cb t s) = lockBoard s"
    and "flippedCards (run_cb t s) = flippedCards s"
  using assms by (cases "cb t"; simp add: cb_defs split: option.splits)+

lemma timers_ok_startTimer: "timers_ok s \<Longrightarrow> timers_ok (startTimer s)"
  by (auto simp: timers_ok_def list_all_iff startTimer_def setInterval_def setTimeout_def less_Suc_eq
        split: option.splits)

lemma none_pending_startTimer:
  "none_pending is_revert s \<Longrightarrow> none_pending is_revert (startTimer s)"
  by (simp add: none_pending_def startTimer_def setInterval_def setTimeout_def)

lemma sole_timeout_new:
  assumes "timers_ok s" and "none_pending K s" and "K c"
  shows "sole_timeout K \<lparr>tid = nextId s, due = d, cb = c\<rparr>
           (s\<lparr>pending := pending s @ [\<lparr>tid = nextId s, due = d, cb = c\<rparr>]\<rparr>)"
  using assms
  by (auto simp: sole_timeout_def timers_ok_def none_pending_def list_all_iff
        split: option.splits)

lemma sole_timeout_irrelevant [simp]:
  "sole_timeout K e (s\<lparr>nextId := n\<rparr>) = sole_timeout K e s"
  "sole_timeout K e (s\<lparr>lockBoard := b\<rparr>) = sole_timeout K e s"
  "sole_timeout K e (s\<lparr>flippedCards := fl\<rparr>) = sole_timeout K e s"
  "sole_timeout K e (s\<lparr>heap := h\<rparr>) = sole_timeout K e s"
  "sole_timeout K e (s\<lparr>moves := n\<rparr>) = sole_timeout K e s"
  "sole_timeout K e (s\<lparr>movesEl := n\<rparr>) = sole_timeout K e s"
  "sole_timeout K e (s\<lparr>matchedCount := n\<rparr>) = sole_timeout K e s"
  by (simp_all add: sole_timeout_def)

text \<open>The state right after the second reveal of a turn whose two icons differ.\<close>

lemma click_mismatch:
  assumes "i < length (cards s)" and "\<not> lockBoard s" and "flippedCards s = [card1]"
    and "status_of (tile s i) = Hidden" and "icon (heap s card1) \<noteq> icon (tile s i)"
  defines "card2 \<equiv> cards s ! i"
  defines "e \<equiv> \<lparr>tid = nextId (startTimer s), due = now s + 900, cb = Revert card1 card2\<rparr>"
  defines "s' \<equiv> step (Click i) s"
  shows "lockBoard s'" and "flippedCards s' = [card1, card2]"
    and "heap s' = (heap s)(card2 := (heap s card2)\<lparr>flipped := True\<rparr>)"
    and "pending s' = pending (startTimer s) @ [e]"
    and "timer s' = timer (startTimer s)"
    and "now s' = now s" and "moves s' = moves s + 1"
    and "matchedCount s' = matchedCount s"
proof -
  from assms(4) have h: "\<not> flipped (heap s card2)" "\<not> matched (heap s card2)"
    by (simp_all add: tile_def status_of_def card2_def split: if_splits)
  from assms(5) have ne: "card1 \<noteq> card2"
    by (auto simp: tile_def card2_def)
  have "s' = setTimeout (Revert card1 card2) 900
      ((add_flipped card2 (startTimer s))
         \<lparr>flippedCards := [card1, card2], moves := moves s + 1, movesEl := moves s + 1,
           lockBoard := True\<rparr>)"
    using assms(1,2,3,5) h ne
    by (simp add: s'_def card2_def [symmetric] flipCard_def checkForMatch_def
          handleMismatch_def Let_def add_flipped_def startTimer_def setInterval_def setTimeout_def tile_def)
  then show "lockBoard s'" and "flippedCards s' = [card1, card2]"
    and "heap s' = (heap s)(card2 := (heap s card2)\<lparr>flipped := True\<rparr>)"
    and "pending s' = pending (startTimer s) @ [e]"
    and "timer s' = timer (startTimer s)"
    and "now s' = now s" and "moves s' = moves s + 1"
    and "matchedCount s' = matchedCount s"
    by (simp_all add: e_def setTimeout_def add_flipped_def startTimer_def setInterval_def)
qed

lemma click_mismatch_sole:
  assumes "i < length (cards s)" and "\<not> lockBoard s" and "flippedCards s = [card1]"
    and "status_of (tile s i) = Hidden" and "icon (heap s card1) \<noteq> icon (tile s i)"
    and "none_pending is_revert s" and "timers_ok s"
  shows "sole_timeout is_revert
           \<lparr>tid = nextId (startTimer s), due = now s + 900, cb = Revert card1 (cards s ! i)\<rparr>
           (step (Click i) s)"
proof -
  let ?e = "\<lparr>tid = nextId (startTimer s), due = now s + 900, cb = Revert card1 (cards s ! i)\<rparr>"
  have "sole_timeout is_revert ?e ((startTimer s)\<lparr>pending := pending (startTimer s) @ [?e]\<rparr>)"
    by (rule sole_timeout_new)
       (simp_all add: timers_ok_startTimer none_pending_startTimer assms(6,7))
  then show ?thesis
    using click_mismatch(4,5) [OF assms(1-5)]
    by (simp add: sole_timeout_def)
qed

text \<open>
  The cool-down as the specification describes it, in a state in which no reversion of
  an earlier turn is registered. Let the second reveal of a turn hit a tile whose icon
  differs from the first tile's. Then the board is locked and stays locked, with both
  tiles revealed and every click ignored, for the whole cool-down of 900 ms. When 900 ms
  have passed both tiles are hidden again, the turn is empty and the lock is free; every
  other card element, the board, \<open>moves\<close> and \<open>matchedCount\<close> are as they were right
  after the reveal.
\<close>

lemma mismatch_cooldown:
  assumes "i < length (cards s)" and "\<not> lockBoard s" and "flippedCards s = [card1]"
    and "status_of (heap s card1) = Revealed" and "status_of (tile s i) = Hidden"
    and "icon (heap s card1) \<noteq> icon (tile s i)"
    and "none_pending is_revert s" and "timers_ok s"
    and "s' = step (Click i) s" and "u = advance 900 s'"
  shows "lockBoard s' \<and> moves s' = moves s + 1 \<and> flippedCards s' = [card1, cards s ! i]
       \<and> status_of (heap s' card1) = Revealed \<and> status_of (tile s' i) = Revealed
       \<and> (\<forall>d<900. lockBoard (advance d s') \<and> heap (advance d s') = heap s'
              \<and> flippedCards (advance d s') = flippedCards s'
              \<and> (\<forall>j. step (Click j) (advance d s') = advance d s'))
       \<and> \<not> lockBoard u \<and> flippedCards u = []
       \<and> status_of (heap u card1) = Hidden \<and> status_of (tile u i) = Hidden
       \<and> (\<forall>a. a \<noteq> card1 \<and> a \<noteq> cards s ! i \<longrightarrow> heap u a = heap s' a)
       \<and> icon (heap u card1) = icon (heap s' card1) \<and> icon (tile u i) = icon (tile s' i)
       \<and> cards u = cards s' \<and> moves u = moves s' \<and> matchedCount u = matchedCount s'
       \<and> none_pending is_revert u"
proof -
  let ?c2 = "cards s ! i"
  let ?e = "\<lparr>tid = nextId (startTimer s), due = now s + 900, cb = Revert card1 ?c2\<rparr>"
  let ?P = "\<lambda>v. lockBoard v \<and> flippedCards v = [card1, ?c2] \<and> heap v = heap s'"
  let ?H = "(heap s')(card1 := (heap s' card1)\<lparr>flipped := False\<rparr>,
                       ?c2 := (heap s' ?c2)\<lparr>flipped := False\<rparr>)"
  let ?Q = "\<lambda>v. \<not> lockBoard v \<and> flippedCards v = [] \<and> heap v = ?H
                \<and> none_pending is_revert v"
  note pre = assms(1,2,3,5,6)
  note cm = click_mismatch [OF pre, folded assms(9)]
  have sole: "sole_timeout is_revert ?e s'"
    unfolding assms(9) by (rule click_mismatch_sole [OF pre assms(7,8)])
  from assms(4,5) have st: "flipped (heap s card1)" "\<not> matched (heap s card1)"
    "\<not> flipped (heap s ?c2)" "\<not> matched (heap s ?c2)"
    by (simp_all add: status_of_def tile_def split: if_splits)
  then have ne: "card1 \<noteq> ?c2" by auto
  have cards': "cards s' = cards s" by (simp add: assms(9) cards_flipCard)
  have P0: "?P s'" using cm(1,2) by simp
  have clock: "?P (v\<lparr>now := now v + 1\<rparr>)" if "?P v" for v using that by simp
  have keep: "?P (run_cb t v)" if "?P v" "\<not> is_revert (cb t)" for t v
    using that by (simp add: run_cb_not_revert)
  have during: "sole_timeout is_revert ?e (advance d s') \<and> ?P (advance d s')" if "d < 900" for d
    by (rule advance_before [where P = ?P, OF sole P0 _ clock keep])
       (use that cm(6) in simp_all)
  have ignore: "step (Click j) (advance d s') = advance d s'" if "d < 900" for d j
    using during [OF that] by (simp add: flipCard_ignored)
  have run: "?Q (run_cb ?e v)" if "sole_timeout is_revert ?e v" "?P v" for v
    using that ne none_pending_after [OF that(1)]
    by (simp add: run_cb_def revert_cb_def resetTurn_def remove_flipped_def none_pending_def)
  have after: "?Q (run_cb t v)" if "?Q v" "t \<in> set (pending v)" for t v
  proof -
    from that have "\<not> is_revert (cb t)" by (auto simp: none_pending_def list_all_iff)
    with that(1) show ?thesis by (simp add: run_cb_not_revert none_pending_run_cb)
  qed
  have "u = ms_step (advance 899 s')"
    using advance_Suc_right [of 899 s'] by (simp add: assms(10))
  moreover have "?Q (ms_step (advance 899 s'))"
  proof (rule ms_step_at [where K = is_revert and e = ?e and P = ?P and Q = ?Q])
    show "sole_timeout is_revert ?e (advance 899 s')" "?P (advance 899 s')"
      using during [of 899] by simp_all
    show "due ?e \<le> now (advance 899 s') + 1" by (simp add: cm(6))
  qed (use clock keep run after in blast)+
  ultimately have Q: "?Q u" by simp
  have s'_status: "status_of (heap s' card1) = Revealed" "status_of (tile s' i) = Revealed"
    using st ne by (simp_all add: cm(3) status_of_def tile_def cards')
  have u_status: "status_of (heap u card1) = Hidden" "status_of (tile u i) = Hidden"
    using Q st ne by (simp_all add: cm(3) status_of_def tile_def assms(10) cards')
  have u_icons: "icon (heap u card1) = icon (heap s' card1)" "icon (tile u i) = icon (tile s' i)"
    using Q by (simp_all add: tile_def assms(10))
  have u_frame: "\<forall>a. a \<noteq> card1 \<and> a \<noteq> ?c2 \<longrightarrow> heap u a = heap s' a"
    using Q by simp
  have u_rest: "cards u = cards s'" "moves u = moves s'" "matchedCount u = matchedCount s'"
    by (simp_all add: assms(10))
  have wait: "\<forall>d<900. lockBoard (advance d s') \<and> heap (advance d s') = heap s'
              \<and> flippedCards (advance d s') = flippedCards s'
              \<and> (\<forall>j. step (Click j) (advance d s') = advance d s')"
    using during ignore cm(2) by simp
  from cm(1,2,7) s'_status wait Q u_status u_frame u_icons u_rest
  show ?thesis by blast
qed

lemma mismatch_cooldown_example:
  "none_pending is_revert (step (Click 0) (boot (\<lambda>k. 0)))
   \<and> timers_ok (step (Click 0) (boot (\<lambda>k. 0)))
   \<and> icon (tile (boot (\<lambda>k. 0)) 0) \<noteq> icon (tile (boot (\<lambda>k. 0)) 1)
   \<and> lockBoard (exec [Click 0, Click 1, Wait 899] (boot (\<lambda>k. 0)))
   \<and> \<not> lockBoard (exec [Click 0, Click 1, Wait 900] (boot (\<lambda>k. 0)))
   \<and> status_of (tile (exec [Click 0, Click 1, Wait 900] (boot (\<lambda>k. 0))) 1) = Hidden
   \<and> moves (exec [Click 0, Click 1, Wait 900] (boot (\<lambda>k. 0))) = 1"
proof -
  let ?s = "step (Click 0) (boot (\<lambda>k. 0))"
  have h: "1 < length (cards ?s)" "\<not> lockBoard ?s" "flippedCards ?s = [0]"
    "status_of (heap ?s 0) = Revealed" "status_of (tile ?s 1) = Hidden"
    "icon (heap ?s 0) \<noteq> icon (tile ?s 1)" "none_pending is_revert ?s" "timers_ok ?s"
    by code_simp+
  have i: "icon (tile (boot (\<lambda>k. 0)) 0) \<noteq> icon (tile (boot (\<lambda>k. 0)) 1)"
    and m: "moves ?s = 0"
    by code_simp+
  from mismatch_cooldown [OF h refl refl] h(7,8) i m show ?thesis by simp
qed

section \<open>A restart while a reversion is outstanding\<close>

lemma ms_step_idle:
  "list_all (\<lambda>t. now s + 1 < due t) (pending s) \<Longrightarrow> ms_step s = s\<lparr>now := now s + 1\<rparr>"
proof -
  assume "list_all (\<lambda>t. now s + 1 < due t) (pending s)"
  then have "filter (\<lambda>t. due t \<le> now s + 1) (pending s) = []"
    by (auto simp: filter_empty_conv list_all_iff)
  then show ?thesis by (simp add: ms_step_def)
qed

lemma advance_idle:
  "list_all (\<lambda>t. now s + d < due t) (pending s) \<Longrightarrow> advance d s = s\<lparr>now := now s + d\<rparr>"
proof (induction d arbitrary: s)
  case 0
  then show ?case by simp
next
  case (Suc d)
  then have "list_all (\<lambda>t. now s + 1 < due t) (pending s)"
    by (auto simp: list_all_iff)
  then have m: "ms_step s = s\<lparr>now := now s + 1\<rparr>" by (rule ms_step_idle)
  have "advance d (s\<lparr>now := now s + 1\<rparr>) = s\<lparr>now := now s + 1, now := now s + 1 + d\<rparr>"
    using Suc.prems Suc.IH [of "s\<lparr>now := now s + 1\<rparr>"] by simp
  with m show ?case by simp
qed

lemma advance_then_fire:
  "d' = Suc d \<Longrightarrow> list_all (\<lambda>t. now s + d < due t) (pending s) \<Longrightarrow>
     advance d' s = ms_step (s\<lparr>now := now s + d\<rparr>)"
  by (simp only: advance_Suc_right advance_idle)

text \<open>
  C2: the callback of \<open>handleMismatch\<close> is neither cancelled by \<open>createBoard\<close> nor does it
  check which game it belongs to. Here a mismatch is followed by a restart after 200 ms
  and by the first reveal of the new game; 900 ms after the mismatch the old callback
  runs and empties \<open>flippedCards\<close> of the new game, whose revealed tile (card element 16,
  at position 0 of the new board) stays revealed but is no longer part of any turn.
\<close>

theorem stale_reversion_clears_new_turn:
  "flippedCards (exec [Click 0, Click 1, Wait 200, Restart (\<lambda>k. 0), Click 0, Wait 699]
                   (boot (\<lambda>k. 0))) = [16]
   \<and> flippedCards (exec [Click 0, Click 1, Wait 200, Restart (\<lambda>k. 0), Click 0, Wait 700]
                     (boot (\<lambda>k. 0))) = []
   \<and> cards (exec [Click 0, Click 1, Wait 200, Restart (\<lambda>k. 0), Click 0, Wait 700]
              (boot (\<lambda>k. 0))) = [16, 17, 18, 19, 20, 21, 22, 23, 24, 25, 26, 27, 28, 29, 30, 31]
   \<and> status_of (tile (exec [Click 0, Click 1, Wait 200, Restart (\<lambda>k. 0), Click 0, Wait 700]
                         (boot (\<lambda>k. 0))) 0) = Revealed"
proof -
  let ?s1 = "exec [Click 0, Click 1] (boot (\<lambda>k. 0))"
  let ?s2 = "exec [Restart (\<lambda>k. 0), Click 0] (?s1\<lparr>now := now ?s1 + 200\<rparr>)"
  have w1: "advance 200 ?s1 = ?s1\<lparr>now := now ?s1 + 200\<rparr>"
    by (rule advance_idle) code_simp
  have w2: "advance 699 ?s2 = ?s2\<lparr>now := now ?s2 + 699\<rparr>"
    by (rule advance_idle) code_simp
  have w3: "advance 700 ?s2 = ms_step (?s2\<lparr>now := now ?s2 + 699\<rparr>)"
    by (rule advance_then_fire) code_simp+
  have a: "exec [Click 0, Click 1, Wait 200, Restart (\<lambda>k. 0), Click 0, Wait 699]
             (boot (\<lambda>k. 0)) = ?s2\<lparr>now := now ?s2 + 699\<rparr>"
    using w1 w2 by simp
  have b: "exec [Click 0, Click 1, Wait 200, Restart (\<lambda>k. 0), Click 0, Wait 700]
             (boot (\<lambda>k. 0)) = ms_step (?s2\<lparr>now := now ?s2 + 699\<rparr>)"
    using w1 w3 by simp
  show ?thesis unfolding a b by code_simp
qed

text \<open>
  C1: the same stale callback also releases the lock of the new game. Here the new game
  reveals two tiles that do not match, the old callback unlocks the board while both are
  still face up, and a third tile is then revealed: three tiles of the board are revealed
  and unmatched at once.
\<close>

theorem three_tiles_revealed_after_restart:
  "lockBoard (exec [Click 0, Click 1, Wait 200, Restart (\<lambda>k. 0), Click 0, Click 1, Wait 699]
                (boot (\<lambda>k. 0)))
   \<and> \<not> lockBoard (exec [Click 0, Click 1, Wait 200, Restart (\<lambda>k. 0), Click 0, Click 1,
                         Wait 700] (boot (\<lambda>k. 0)))
   \<and> revealed_tiles (exec [Click 0, Click 1, Wait 200, Restart (\<lambda>k. 0), Click 0, Click 1,
                            Wait 700, Click 2] (boot (\<lambda>k. 0))) = [16, 17, 18]
   \<and> length (revealed_tiles (exec [Click 0, Click 1, Wait 200, Restart (\<lambda>k. 0), Click 0,
                                    Click 1, Wait 700, Click 2] (boot (\<lambda>k. 0)))) = 3"
proof -
  let ?s1 = "exec [Click 0, Click 1] (boot (\<lambda>k. 0))"
  let ?s2 = "exec [Restart (\<lambda>k. 0), Click 0, Click 1] (?s1\<lparr>now := now ?s1 + 200\<rparr>)"
  have w1: "advance 200 ?s1 = ?s1\<lparr>now := now ?s1 + 200\<rparr>"
    by (rule advance_idle) code_simp
  have w2: "advance 699 ?s2 = ?s2\<lparr>now := now ?s2 + 699\<rparr>"
    by (rule advance_idle) code_simp
  have w3: "advance 700 ?s2 = ms_step (?s2\<lparr>now := now ?s2 + 699\<rparr>)"
    by (rule advance_then_fire) code_simp+
  have a: "exec [Click 0, Click 1, Wait 200, Restart (\<lambda>k. 0), Click 0, Click 1, Wait 699]
             (boot (\<lambda>k. 0)) = ?s2\<lparr>now := now ?s2 + 699\<rparr>"
    using w1 w2 by simp
  have b: "exec [Click 0, Click 1, Wait 200, Restart (\<lambda>k. 0), Click 0, Click 1, Wait 700]
             (boot (\<lambda>k. 0)) = ms_step (?s2\<lparr>now := now ?s2 + 699\<rparr>)"
    using w1 w3 by simp
  have c: "exec [Click 0, Click 1, Wait 200, Restart (\<lambda>k. 0), Click 0, Click 1, Wait 700,
                 Click 2] (boot (\<lambda>k. 0)) = step (Click 2) (ms_step (?s2\<lparr>now := now ?s2 + 699\<rparr>))"
    using w1 w3 by simp
  show ?thesis unfolding a b c by code_simp
qed

text \<open>
  C6: the cool-down of a mismatch is cut short by the same stale callback. Here the first
  game is restarted 300 ms after a mismatch and the new game at once reveals two tiles
  that do not match. The board is locked for 599 ms; at 600 ms, when 900 ms have passed
  since the mismatch of the first game, its callback releases the lock and empties the
  turn, while both tiles of the new game (card elements 16 and 17) are still revealed.
\<close>

theorem cooldown_cut_short_by_stale_reversion:
  "lockBoard (exec [Click 0, Click 1, Wait 300, Restart (\<lambda>k. 0), Click 0, Click 1, Wait 599]
                (boot (\<lambda>k. 0)))
   \<and> flippedCards (exec [Click 0, Click 1, Wait 300, Restart (\<lambda>k. 0), Click 0, Click 1,
                           Wait 599] (boot (\<lambda>k. 0))) = [16, 17]
   \<and> \<not> lockBoard (exec [Click 0, Click 1, Wait 300, Restart (\<lambda>k. 0), Click 0, Click 1,
                         Wait 600] (boot (\<lambda>k. 0)))
   \<and> flippedCards (exec [Click 0, Click 1, Wait 300, Restart (\<lambda>k. 0), Click 0, Click 1,
                           Wait 600] (boot (\<lambda>k. 0))) = []
   \<and> revealed_tiles (exec [Click 0, Click 1, Wait 300, Restart (\<lambda>k. 0), Click 0, Click 1,
                            Wait 600] (boot (\<lambda>k. 0))) = [16, 17]"
proof -
  let ?s1 = "exec [Click 0, Click 1] (boot (\<lambda>k. 0))"
  let ?s2 = "exec [Restart (\<lambda>k. 0), Click 0, Click 1] (?s1\<lparr>now := now ?s1 + 300\<rparr>)"
  have w1: "advance 300 ?s1 = ?s1\<lparr>now := now ?s1 + 300\<rparr>"
    by (rule advance_idle) code_simp
  have w2: "advance 599 ?s2 = ?s2\<lparr>now := now ?s2 + 599\<rparr>"
    by (rule advance_idle) code_simp
  have w3: "advance 600 ?s2 = ms_step (?s2\<lparr>now := now ?s2 + 599\<rparr>)"
    by (rule advance_then_fire) code_simp+
  have a: "exec [Click 0, Click 1, Wait 300, Restart (\<lambda>k. 0), Click 0, Click 1, Wait 599]
             (boot (\<lambda>k. 0)) = ?s2\<lparr>now := now ?s2 + 599\<rparr>"
    using w1 w2 by simp
  have b: "exec [Click 0, Click 1, Wait 300, Restart (\<lambda>k. 0), Click 0, Click 1, Wait 600]
             (boot (\<lambda>k. 0)) = ms_step (?s2\<lparr>now := now ?s2 + 599\<rparr>)"
    using w1 w3 by simp
  show ?thesis unfolding a b by code_simp
qed

section \<open>Winning\<close>

lemma filter_all_length:
  "(length (filter P xs) = length xs) = (\<forall>x \<in> set xs. P x)"
proof (induction xs)
  case Nil
  then show ?case by simp
next
  case (Cons x xs)
  have "length (filter P xs) \<le> length xs" by (rule length_filter_le)
  then have "length (filter P xs) \<noteq> Suc (length xs)" by linarith
  with Cons show ?case by auto
qed

lemma count_inv_all_matched:
  "count_inv s \<Longrightarrow> (matchedCount s = length (cards s)) = all_matched s"
  by (simp add: count_inv_def matched_tiles_def all_matched_def filter_all_length list_all_iff)

lemma all_matched_click: "all_matched s \<Longrightarrow> step (Click i) s = s"
  by (simp add: all_matched_def list_all_iff flipCard_ignored)

lemma timers_ok_setTimeout: "timers_ok s \<Longrightarrow> timers_ok (setTimeout c d s)"
  by (auto simp: timers_ok_def list_all_iff setTimeout_def less_Suc_eq split: option.splits)

lemma timers_ok_irrelevant [simp]:
  "timers_ok (s\<lparr>now := n\<rparr>) = timers_ok s"
  "timers_ok (s\<lparr>lockBoard := b\<rparr>) = timers_ok s"
  "timers_ok (s\<lparr>flippedCards := fl\<rparr>) = timers_ok s"
  "timers_ok (s\<lparr>heap := h\<rparr>) = timers_ok s"
  "timers_ok (s\<lparr>moves := n\<rparr>) = timers_ok s"
  "timers_ok (s\<lparr>movesEl := n\<rparr>) = timers_ok s"
  "timers_ok (s\<lparr>matchedCount := n\<rparr>) = timers_ok s"
  by (simp_all add: timers_ok_def split: option.splits)

lemma timers_ok_checkForMatch: "timers_ok s \<Longrightarrow> timers_ok (checkForMatch s)"
  by (simp add: checkForMatch_def handleMatch_def handleMismatch_def resetTurn_def
        add_matched_def Let_def timers_ok_setTimeout split: list.splits)

lemma timers_ok_flipCard: "timers_ok s \<Longrightarrow> timers_ok (flipCard c s)"
  by (simp add: flipCard_def Let_def add_flipped_def timers_ok_checkForMatch
        timers_ok_startTimer)

lemma timers_ok_run_cb: "timers_ok s \<Longrightarrow> timers_ok (run_cb t s)"
  by (cases "cb t")
     (auto simp: timers_ok_def list_all_iff cb_defs split: option.splits)

lemma timers_ok_createBoard: "timers_ok s \<Longrightarrow> timers_ok (createBoard rnd s)"
  by (auto simp: timers_ok_def list_all_iff createBoard_pending split: option.splits)

lemma timers_ok_advance: "timers_ok s \<Longrightarrow> timers_ok (advance d s)"
  by (rule advance_induct) (simp_all add: timers_ok_run_cb)

lemma timers_ok_reachable: "timers_ok (exec es (boot rnd))"
proof -
  have "timers_ok s \<Longrightarrow> timers_ok (exec es s)" for s
  proof (induction es arbitrary: s)
    case Nil
    then show ?case by simp
  next
    case (Cons e es)
    have "timers_ok (step e s)"
      using Cons.prems
      by (cases e) (simp_all add: timers_ok_flipCard timers_ok_createBoard timers_ok_advance)
    then show ?case by (simp add: Cons.IH)
  qed
  moreover have "timers_ok (boot rnd)"
    unfolding boot_def by (rule timers_ok_createBoard) (simp add: timers_ok_def init_def)
  ultimately show ?thesis by simp
qed

section \<open>The invariant of a game\<close>

lemma flipCard_fields [simp]:
  "winOverlay (flipCard c s) = winOverlay s"
  "finalMoves (flipCard c s) = finalMoves s"
  "finalTime (flipCard c s) = finalTime s"
  "time (flipCard c s) = time s"
  "now (flipCard c s) = now s"
  by (simp_all add: game_defs Let_def split: list.splits)

lemma none_pending_irrelevant [simp]:
  "none_pending K (s\<lparr>nextId := n\<rparr>) = none_pending K s"
  "none_pending K (s\<lparr>lockBoard := b\<rparr>) = none_pending K s"
  "none_pending K (s\<lparr>flippedCards := fl\<rparr>) = none_pending K s"
  "none_pending K (s\<lparr>heap := h\<rparr>) = none_pending K s"
  "none_pending K (s\<lparr>moves := n\<rparr>) = none_pending K s"
  "none_pending K (s\<lparr>movesEl := n\<rparr>) = none_pending K s"
  "none_pending K (s\<lparr>matchedCount := n\<rparr>) = none_pending K s"
  by (simp_all add: none_pending_def)

lemma none_pending_setTimeout:
  "none_pending K s \<Longrightarrow> \<not> K c \<Longrightarrow> none_pending K (setTimeout c d s)"
  by (simp add: none_pending_def setTimeout_def)

lemma none_pending_endGame_startTimer:
  "none_pending is_endGame s \<Longrightarrow> none_pending is_endGame (startTimer s)"
  by (simp add: none_pending_def startTimer_def setInterval_def setTimeout_def)

lemma sole_timeout_setTimeout:
  assumes "timers_ok s" and "none_pending K s" and "K c"
  shows "sole_timeout K \<lparr>tid = nextId s, due = now s + d, cb = c\<rparr> (setTimeout c d s)"
  using assms
  by (auto simp: sole_timeout_def timers_ok_def none_pending_def list_all_iff setTimeout_def
        split: option.splits)

lemma handleMatch_endGame:
  assumes "timers_ok s" and "none_pending is_endGame s"
  shows "if matchedCount s + 2 = length (cards s)
         then sole_timeout is_endGame \<lparr>tid = nextId s, due = now s + 400, cb = EndGame\<rparr>
                (handleMatch card1 card2 s)
         else none_pending is_endGame (handleMatch card1 card2 s)"
proof -
  define x where "x = resetTurn ((add_matched card2 (add_matched card1 s))
      \<lparr>matchedCount := matchedCount (add_matched card2 (add_matched card1 s)) + 2\<rparr>)"
  have x: "timers_ok x" "none_pending is_endGame x" "nextId x = nextId s" "now x = now s"
    "matchedCount x = matchedCount s + 2" "cards x = cards s"
    using assms by (simp_all add: x_def resetTurn_def add_matched_def)
  have "handleMatch card1 card2 s =
      (if matchedCount x = length (cards x) then setTimeout EndGame 400 x else x)"
    by (simp add: handleMatch_def Let_def x_def)
  with sole_timeout_setTimeout [OF x(1,2), of EndGame 400] x show ?thesis by simp
qed

text \<open>
  A click in a state in which \<open>endGame\<close> is not registered registers it exactly when the
  click brings \<open>matchedCount\<close> to the size of the board, and then for 400 ms later.
\<close>

lemma flipCard_endGame:
  assumes "timers_ok s" and "none_pending is_endGame s"
    and "matchedCount s \<noteq> length (cards s)"
  shows "if matchedCount (flipCard c s) = length (cards s)
         then sole_timeout is_endGame
                \<lparr>tid = nextId (startTimer s), due = now s + 400, cb = EndGame\<rparr> (flipCard c s)
         else none_pending is_endGame (flipCard c s)"
proof (cases "lockBoard s \<or> flipped (heap s c) \<or> matched (heap s c)")
  case True
  with assms show ?thesis by (simp add: flipCard_ignored)
next
  case False
  let ?s3 = "(add_flipped c (startTimer s))\<lparr>flippedCards := flippedCards s @ [c]\<rparr>"
  let ?s4 = "?s3\<lparr>moves := moves ?s3 + 1, movesEl := moves ?s3 + 1, lockBoard := True\<rparr>"
  have flip: "flipCard c s = (if length (flippedCards s) = 1 then checkForMatch
      (?s3\<lparr>moves := moves ?s3 + 1, movesEl := moves ?s3 + 1\<rparr>) else ?s3)"
    using False
    by (simp add: flipCard_def Let_def add_flipped_def startTimer_def setInterval_def setTimeout_def)
  have s3: "none_pending is_endGame ?s3" "matchedCount ?s3 = matchedCount s"
    "cards ?s3 = cards s"
    using assms(2)
    by (simp_all add: add_flipped_def none_pending_endGame_startTimer)
       (simp_all add: startTimer_def setInterval_def setTimeout_def)
  have s4: "timers_ok ?s4" "none_pending is_endGame ?s4" "nextId ?s4 = nextId (startTimer s)"
    "now ?s4 = now s" "matchedCount ?s4 = matchedCount s" "cards ?s4 = cards s"
    using assms(1,2)
    by (simp_all add: add_flipped_def none_pending_endGame_startTimer timers_ok_startTimer)
       (simp_all add: startTimer_def setInterval_def setTimeout_def)
  show ?thesis
  proof (cases "flippedCards s")
    case Nil
    with flip s3 assms(3) show ?thesis by simp
  next
    case (Cons card1 rest)
    show ?thesis
    proof (cases rest)
      case (Cons card2 rest')
      with \<open>flippedCards s = card1 # rest\<close> flip s3 assms(3) show ?thesis by simp
    next
      case Nil
      with Cons have fl: "flippedCards s = [card1]" by simp
      show ?thesis
      proof (cases "icon (heap ?s4 card1) = icon (heap ?s4 c)")
        case True
        then have "flipCard c s = handleMatch card1 c ?s4"
          using flip fl by (simp add: checkForMatch_def)
        moreover have "matchedCount (handleMatch card1 c ?s4) = matchedCount s + 2"
          by (simp add: handleMatch_def Let_def resetTurn_def add_matched_def setTimeout_def
                add_flipped_def startTimer_def setInterval_def)
        ultimately show ?thesis
          using handleMatch_endGame [OF s4(1,2), of card1 c]
          by (simp only: s4(3-6) split: if_splits)
      next
        case False
        then have "flipCard c s = setTimeout (Revert card1 c) 900 ?s4"
          using flip fl by (simp add: checkForMatch_def handleMismatch_def)
        moreover have "matchedCount (setTimeout (Revert card1 c) 900 ?s4) = matchedCount s"
          by (simp add: setTimeout_def add_flipped_def startTimer_def setInterval_def)
        ultimately show ?thesis
          using none_pending_setTimeout [OF s4(2), of "Revert card1 c" 900] assms(3)
          by simp
      qed
    qed
  qed
qed

lemma win_inv_flipCard:
  assumes "win_inv s" and "c \<in> set (cards s)"
  shows "win_inv (flipCard c s)"
proof (cases "matchedCount s = length (cards s)")
  case True
  with assms(1) have "all_matched s" by (simp add: win_inv_def count_inv_all_matched)
  with assms(2) have "matched (heap s c)" by (simp add: all_matched_def list_all_iff)
  then have "flipCard c s = s" by (simp add: flipCard_ignored)
  with assms(1) show ?thesis by simp
next
  case False
  with assms(1) have no: "\<not> winOverlay s" "none_pending is_endGame s"
    and base: "count_inv s" "ticks_owned s" "timers_ok s"
    by (auto simp: win_inv_def won_state_def split: if_splits)
  let ?e = "\<lparr>tid = nextId (startTimer s), due = now s + 400, cb = EndGame\<rparr>"
  from flipCard_endGame [OF base(3) no(2) False, of c]
  have "if matchedCount (flipCard c s) = length (cards (flipCard c s))
        then list_ex (\<lambda>e. sole_timeout is_endGame e (flipCard c s) \<and> cb e = EndGame
               \<and> now (flipCard c s) < due e \<and> due e \<le> now (flipCard c s) + 400)
               (pending (flipCard c s))
        else none_pending is_endGame (flipCard c s)"
  proof (simp add: cards_flipCard split: if_splits)
    assume "sole_timeout is_endGame ?e (flipCard c s)"
    moreover from this have "?e \<in> set (pending (flipCard c s))"
      by (simp add: sole_timeout_def)
    ultimately show "list_ex (\<lambda>e. sole_timeout is_endGame e (flipCard c s) \<and> cb e = EndGame
        \<and> now s < due e \<and> due e \<le> now s + 400) (pending (flipCard c s))"
      unfolding list_ex_iff by (intro bexI [of _ ?e]) simp_all
  qed
  with no(1) base assms(2) show ?thesis
    by (simp add: win_inv_def count_inv_flipCard ticks_owned_flipCard timers_ok_flipCard)
qed

lemma run_cb_not_endGame:
  assumes "\<not> is_endGame (cb t)"
  shows "winOverlay (run_cb t s) = winOverlay s" and "finalMoves (run_cb t s) = finalMoves s"
    and "finalTime (run_cb t s) = finalTime s"
  using assms by (cases "cb t"; simp add: cb_defs split: option.splits)+

lemma run_cb_keeps_overlay: "winOverlay s \<Longrightarrow> winOverlay (run_cb t s)"
  by (cases "cb t") (simp_all add: cb_defs split: option.splits)

lemma won_state_now [simp]: "won_state (s\<lparr>now := n\<rparr>) = won_state s"
  by (simp add: won_state_def ticking_def)

lemma won_state_run_cb:
  assumes "won_state s" and "t \<in> set (pending s)"
  shows "won_state (run_cb t s) \<and> time (run_cb t s) = time s"
proof (cases "cb t")
  case Tick
  with assms show ?thesis by (auto simp: won_state_def ticking_def list_ex_iff)
next
  case EndGame
  with assms show ?thesis by (auto simp: won_state_def none_pending_def list_all_iff)
next
  case (Revert card1 card2)
  with assms(1) show ?thesis
    by (auto simp: won_state_def ticking_def none_pending_def list_all_iff list_ex_iff
          run_cb_def revert_cb_def resetTurn_def remove_flipped_def)
qed

lemma endGame_won:
  assumes "sole_timeout is_endGame e s" and "cb e = EndGame" and "ticks_owned s"
    and "matchedCount s = length (cards s)"
  shows "won_state (run_cb e s)"
proof -
  have p: "set (pending (run_cb e s)) \<subseteq>
      {t \<in> set (pending s). tid t \<noteq> tid e \<and> timer s \<noteq> Some (tid t)}"
    by (auto simp: run_cb_def endGame_def clearInterval_def assms(2) split: option.splits)
  have f: "winOverlay (run_cb e s)" "finalMoves (run_cb e s) = moves s"
    "finalTime (run_cb e s) = time s" "time (run_cb e s) = time s"
    by (simp_all add: run_cb_def endGame_def clearInterval_def assms(2) split: option.splits)
  have "cb t \<noteq> Tick" if "t \<in> set (pending (run_cb e s))" for t
    using that p assms(3) by (auto simp: ticks_owned_def list_all_iff)
  then have nt: "\<not> ticking (run_cb e s)" by (auto simp: ticking_def list_ex_iff)
  have "\<not> is_endGame (cb t)" if "t \<in> set (pending (run_cb e s))" for t
    using that p assms(1) by (auto simp: sole_timeout_def list_all_iff)
  then have "none_pending is_endGame (run_cb e s)" by (simp add: none_pending_def list_all_iff)
  with nt f assms(4) show ?thesis by (simp add: won_state_def)
qed

lemma win_inv_ms_step:
  assumes "win_inv s"
  shows "win_inv (ms_step s)"
proof -
  from assms have base: "count_inv s" "ticks_owned s" "timers_ok s"
    by (simp_all add: win_inv_def)
  have base': "count_inv (ms_step s)" "ticks_owned (ms_step s)" "timers_ok (ms_step s)"
    "matchedCount (ms_step s) = matchedCount s" "cards (ms_step s) = cards s"
    using count_inv_advance [OF base(1), of 1] ticks_owned_advance [OF base(2), of 1]
      timers_ok_advance [OF base(3), of 1] advance_fields(1,3) [of 1 s]
    by simp_all
  consider (won) "winOverlay s"
    | (due) "\<not> winOverlay s" "matchedCount s = length (cards s)"
    | (play) "\<not> winOverlay s" "matchedCount s \<noteq> length (cards s)"
    by blast
  then show ?thesis
  proof cases
    case won
    with assms have "won_state s" by (simp add: win_inv_def)
    then have "won_state (ms_step s)"
      by (intro ms_step_induct [where P = won_state]) (simp_all add: won_state_run_cb)
    then show ?thesis using base' by (simp add: win_inv_def won_state_def)
  next
    case play
    with assms have "none_pending is_endGame s \<and> \<not> winOverlay s"
      by (simp add: win_inv_def)
    then have "none_pending is_endGame (ms_step s) \<and> \<not> winOverlay (ms_step s)"
    proof (intro ms_step_induct [where P = "\<lambda>v. none_pending is_endGame v \<and> \<not> winOverlay v"])
      fix t u assume "none_pending is_endGame u \<and> \<not> winOverlay u" "t \<in> set (pending u)"
      moreover from this have "\<not> is_endGame (cb t)"
        by (auto simp: none_pending_def list_all_iff)
      ultimately show "none_pending is_endGame (run_cb t u) \<and> \<not> winOverlay (run_cb t u)"
        by (simp add: none_pending_run_cb run_cb_not_endGame)
    qed simp
    with play base' show ?thesis by (simp add: win_inv_def)
  next
    case due
    with assms obtain e where e: "e \<in> set (pending s)" "sole_timeout is_endGame e s"
      "cb e = EndGame" "now s < due e" "due e \<le> now s + 400"
      by (auto simp: win_inv_def list_ex_iff)
    let ?P = "\<lambda>v. \<not> winOverlay v \<and> ticks_owned v \<and> matchedCount v = length (cards v)"
    have P0: "?P s" using due base by simp
    have clock: "?P (v\<lparr>now := now v + 1\<rparr>)" if "?P v" for v
      using that by (simp add: ticks_owned_def)
    have keep: "?P (run_cb t v)" if "?P v" "\<not> is_endGame (cb t)" for t v
      using that by (simp add: run_cb_not_endGame ticks_owned_run_cb)
    show ?thesis
    proof (cases "now s + 1 < due e")
      case True
      from ms_step_before [where P = ?P, OF e(2) P0 True clock keep]
      have after: "sole_timeout is_endGame e (ms_step s)" "\<not> winOverlay (ms_step s)"
        by simp_all
      then have "e \<in> set (pending (ms_step s))" by (simp add: sole_timeout_def)
      with after e True
      have "list_ex (\<lambda>e. sole_timeout is_endGame e (ms_step s) \<and> cb e = EndGame
          \<and> now (ms_step s) < due e \<and> due e \<le> now (ms_step s) + 400) (pending (ms_step s))"
        unfolding list_ex_iff by (intro bexI [of _ e]) simp_all
      with after(2) due base' show ?thesis by (simp add: win_inv_def)
    next
      case False
      then have d: "due e \<le> now s + 1" by simp
      have "won_state (ms_step s)"
      proof (rule ms_step_at [where K = is_endGame and e = e and P = ?P and Q = won_state,
            OF e(2) P0 d clock keep])
        fix u assume "sole_timeout is_endGame e u" "?P u"
        then show "won_state (run_cb e u)" by (simp add: endGame_won e(3))
      next
        fix t u assume "won_state u" "t \<in> set (pending u)"
        then show "won_state (run_cb t u)" by (simp add: won_state_run_cb)
      qed
      then show ?thesis using base' by (simp add: win_inv_def won_state_def)
    qed
  qed
qed

lemma win_inv_advance: "win_inv s \<Longrightarrow> win_inv (advance d s)"
  by (induction d arbitrary: s) (simp_all add: win_inv_ms_step)

lemma win_inv_step: "win_inv s \<Longrightarrow> \<not> is_restart e \<Longrightarrow> win_inv (step e s)"
  by (cases e) (simp_all add: win_inv_flipCard win_inv_advance)

lemma win_inv_exec: "win_inv s \<Longrightarrow> restart_free es \<Longrightarrow> win_inv (exec es s)"
  by (induction es arbitrary: s) (simp_all add: win_inv_step restart_free_def)

lemma win_inv_boot: "win_inv (boot rnd)"
proof -
  have "ticks_owned init" "timers_ok init" by (simp_all add: ticks_owned_def timers_ok_def init_def)
  then have "ticks_owned (boot rnd)" "timers_ok (boot rnd)"
    unfolding boot_def by (simp_all add: ticks_owned_createBoard timers_ok_createBoard)
  moreover have "none_pending is_endGame (boot rnd)"
    by (simp add: none_pending_def boot_def createBoard_pending init_def)
  moreover have "length (cards (boot rnd)) = 16"
    by (simp add: boot_def createBoard_cards icons_def)
  ultimately show ?thesis
    by (simp add: win_inv_def boot_def count_inv_createBoard)
qed

lemma win_inv_game: "restart_free es \<Longrightarrow> win_inv (exec es (boot rnd))"
  by (rule win_inv_exec) (rule win_inv_boot)

text \<open>
  The invariant holds of every new board that is created while \<open>endGame\<close> is not
  registered, whatever else is: a running interval is cancelled by \<open>createBoard\<close>, and a
  registered reversion does not touch what the invariant speaks of.
\<close>

lemma win_inv_createBoard:
  assumes "ticks_owned t" and "timers_ok t" and "none_pending is_endGame t"
  shows "win_inv (createBoard rnd t)"
proof -
  have "none_pending is_endGame (createBoard rnd t)"
    using assms(3)
    by (auto simp: none_pending_def list_all_iff createBoard_pending split: option.splits)
  moreover have "length (cards (createBoard rnd t)) = 16"
    by (simp add: createBoard_cards icons_def)
  ultimately show ?thesis
    using assms(1,2)
    by (simp add: win_inv_def count_inv_createBoard ticks_owned_createBoard
          timers_ok_createBoard)
qed

lemma game_start_ok:
  assumes "t = init \<or> t = exec es0 (boot rnd0)"
  shows "ticks_owned t \<and> timers_ok t"
  using assms
proof
  assume "t = init"
  then show ?thesis by (simp add: ticks_owned_def timers_ok_def init_def)
next
  assume "t = exec es0 (boot rnd0)"
  then show ?thesis by (simp add: ticks_owned_reachable timers_ok_reachable)
qed

section \<open>From the last match to the win overlay\<close>

lemma time_run_cb_mono: "time s \<le> time (run_cb t s)"
  by (cases "cb t") (simp_all add: cb_defs split: option.splits)

lemma overlay_advance: "winOverlay s \<Longrightarrow> winOverlay (advance d s)"
  by (rule advance_induct) (simp_all add: run_cb_keeps_overlay)

text \<open>
  A registered \<open>endGame\<close> runs exactly when it is due; until then the overlay is hidden
  and the seconds counter can only grow.
\<close>

lemma endGame_fires:
  assumes "sole_timeout is_endGame e s" and "cb e = EndGame" and "ticks_owned s"
    and "matchedCount s = length (cards s)" and "\<not> winOverlay s" and "now s < due e"
  shows "now s + d < due e \<Longrightarrow> \<not> winOverlay (advance d s) \<and> time s \<le> time (advance d s)"
    and "won_state (advance (due e - now s) s) \<and> time s \<le> time (advance (due e - now s) s)"
proof -
  let ?P = "\<lambda>v. \<not> winOverlay v \<and> ticks_owned v \<and> matchedCount v = length (cards v)
                \<and> time s \<le> time v"
  let ?Q = "\<lambda>v. won_state v \<and> time s \<le> time v"
  have P0: "?P s" using assms by simp
  have clock: "?P (v\<lparr>now := now v + 1\<rparr>)" if "?P v" for v
    using that by (simp add: ticks_owned_def)
  have keep: "?P (run_cb t v)" if "?P v" "\<not> is_endGame (cb t)" for t v
    using that time_run_cb_mono [of v t] by (simp add: run_cb_not_endGame ticks_owned_run_cb)
  have before: "sole_timeout is_endGame e (advance k s) \<and> ?P (advance k s)"
    if "now s + k < due e" for k
    by (rule advance_before [where P = ?P, OF assms(1) P0 that clock keep])
  show "now s + d < due e \<Longrightarrow> \<not> winOverlay (advance d s) \<and> time s \<le> time (advance d s)"
    using before [of d] by simp
  from assms(6) obtain k where k: "due e - now s = Suc k"
    by (cases "due e - now s") simp_all
  then have kd: "now s + k < due e" by simp
  have "?Q (ms_step (advance k s))"
  proof (rule ms_step_at [where K = is_endGame and e = e and P = ?P and Q = ?Q])
    show "sole_timeout is_endGame e (advance k s)" "?P (advance k s)"
      using before [OF kd] by simp_all
    show "due e \<le> now (advance k s) + 1" using k by simp
  next
    fix u assume "sole_timeout is_endGame e u" "?P u"
    then show "?Q (run_cb e u)"
      using time_run_cb_mono [of u e] by (simp add: endGame_won assms(2))
  next
    fix t u assume "?Q u" "t \<in> set (pending u)"
    then show "?Q (run_cb t u)" by (simp add: won_state_run_cb)
  qed (use clock keep in blast)+
  then show "won_state (advance (due e - now s) s)
      \<and> time s \<le> time (advance (due e - now s) s)"
    by (simp only: k advance_Suc_right)
qed

lemma won_only_if_all_matched: "win_inv s \<Longrightarrow> winOverlay s \<Longrightarrow> all_matched s"
  using count_inv_all_matched [of s] by (auto simp: win_inv_def won_state_def)

lemma won_within_400:
  assumes "win_inv s" and "all_matched s"
  shows "winOverlay (advance 400 s)"
proof (cases "winOverlay s")
  case True
  then show ?thesis by (rule overlay_advance)
next
  case False
  from assms have m: "matchedCount s = length (cards s)"
    by (simp add: win_inv_def count_inv_all_matched)
  with assms(1) False obtain e where e: "sole_timeout is_endGame e s" "cb e = EndGame"
    "now s < due e" "due e \<le> now s + 400" and o: "ticks_owned s"
    by (auto simp: win_inv_def list_ex_iff)
  from endGame_fires(2) [OF e(1,2) o m False e(3)]
  have "winOverlay (advance (due e - now s) s)" by (simp add: won_state_def)
  then have "winOverlay (advance (400 - (due e - now s)) (advance (due e - now s) s))"
    by (rule overlay_advance)
  moreover have "(due e - now s) + (400 - (due e - now s)) = 400" using e(3,4) by simp
  ultimately show ?thesis
    using advance_add [of "due e - now s" "400 - (due e - now s)" s] by simp
qed

lemma won_is_frozen_step:
  assumes "win_inv s" and "winOverlay s" and "\<not> is_restart e"
  shows "winOverlay (step e s) \<and> moves (step e s) = moves s \<and> time (step e s) = time s
       \<and> finalMoves (step e s) = finalMoves s \<and> finalTime (step e s) = finalTime s"
proof (cases e)
  case (Click i)
  with all_matched_click [OF won_only_if_all_matched [OF assms(1,2)], of i] assms(2)
  show ?thesis by simp
next
  case (Restart rnd)
  with assms(3) show ?thesis by simp
next
  case (Wait d)
  let ?P = "\<lambda>v. won_state v \<and> time v = time s \<and> finalMoves v = finalMoves s
                \<and> finalTime v = finalTime s"
  from assms(1,2) have "?P s" by (simp add: win_inv_def)
  then have "?P (advance d s)"
  proof (rule advance_induct)
    fix t u assume u: "?P u" "t \<in> set (pending u)"
    then have "\<not> is_endGame (cb t)"
      by (auto simp: won_state_def none_pending_def list_all_iff)
    with u show "?P (run_cb t u)" by (simp add: won_state_run_cb run_cb_not_endGame)
  qed simp
  with Wait show ?thesis by (simp add: won_state_def)
qed

lemma won_is_frozen:
  assumes "win_inv s" and "winOverlay s" and "restart_free es"
  shows "winOverlay (exec es s) \<and> moves (exec es s) = moves s \<and> time (exec es s) = time s
       \<and> finalMoves (exec es s) = finalMoves s \<and> finalTime (exec es s) = finalTime s"
  using assms
proof (induction es arbitrary: s)
  case Nil
  then show ?case by simp
next
  case (Cons e es)
  then have e: "\<not> is_restart e" and es: "restart_free es"
    by (simp_all add: restart_free_def)
  note st = won_is_frozen_step [OF Cons.prems(1,2) e]
  from Cons.IH [OF win_inv_step [OF Cons.prems(1) e] _ es] st
  show ?case by simp
qed

lemma last_match_schedules_endGame:
  assumes "win_inv s" and "resolves_match s i" and "matchedCount s + 2 = length (cards s)"
  shows "sole_timeout is_endGame
           \<lparr>tid = nextId (startTimer s), due = now s + 400, cb = EndGame\<rparr> (step (Click i) s)"
    and "matchedCount (step (Click i) s) = length (cards (step (Click i) s))"
    and "\<not> winOverlay (step (Click i) s)" and "ticks_owned (step (Click i) s)"
proof -
  from assms(3) have ne: "matchedCount s \<noteq> length (cards s)" by simp
  with assms(1) have no: "\<not> winOverlay s" "none_pending is_endGame s"
    and base: "ticks_owned s" "timers_ok s"
    by (auto simp: win_inv_def won_state_def split: if_splits)
  from assms(2) have i: "i < length (cards s)" by (simp add: resolves_match_def)
  have m: "matchedCount (step (Click i) s) = length (cards s)"
    using matchedCount_click [of i s] assms(2,3) by simp
  with i show "matchedCount (step (Click i) s) = length (cards (step (Click i) s))"
    by (simp add: cards_flipCard)
  from flipCard_endGame [OF base(2) no(2) ne, of "cards s ! i"] m i
  show "sole_timeout is_endGame
      \<lparr>tid = nextId (startTimer s), due = now s + 400, cb = EndGame\<rparr> (step (Click i) s)"
    by simp
  show "\<not> winOverlay (step (Click i) s)" using no(1) i by simp
  show "ticks_owned (step (Click i) s)" using base(1) i by (simp add: ticks_owned_flipCard)
qed

text \<open>
  C5, as the code has it. A game begins with a call of \<open>createBoard\<close>, when the page is
  loaded or on a click on a restart button at any later moment, and lasts until the next
  restart. For every game that begins while no \<open>endGame\<close> callback is registered:
  the win overlay is shown only if every tile is matched, and it is shown at the latest
  400 ms after every tile is matched. The click that brings \<open>matchedCount\<close> to the size of
  the board registers \<open>endGame\<close> for 400 ms later; during these 400 ms the overlay is not
  shown, \<open>moves\<close> does not change, and the seconds counter keeps running (it can only
  grow). When \<open>endGame\<close> runs it cancels the interval and writes \<open>moves\<close> and the value
  that \<open>time\<close> has then into the final texts; from then on the overlay, \<open>moves\<close>, \<open>time\<close>
  and the final texts do not change for the rest of the game.
\<close>

theorem won_after_last_match:
  assumes "T = init \<or> T = exec es0 (boot rnd0)" and "none_pending is_endGame T"
    and "restart_free es" and "S = exec es (createBoard rnd T)"
  shows "(winOverlay S \<longrightarrow> all_matched S)
       \<and> (all_matched S \<longrightarrow> winOverlay (advance 400 S))
       \<and> (winOverlay S \<longrightarrow>
            \<not> ticking S \<and> finalMoves S = moves S \<and> finalTime S = time S
            \<and> (\<forall>es'. restart_free es' \<longrightarrow>
                  winOverlay (exec es' S) \<and> moves (exec es' S) = moves S
                  \<and> time (exec es' S) = time S \<and> finalMoves (exec es' S) = moves S
                  \<and> finalTime (exec es' S) = time S))
       \<and> (resolves_match S i \<and> matchedCount S + 2 = length (cards S) \<longrightarrow>
            (\<forall>d<400. \<not> winOverlay (advance d (step (Click i) S))
                  \<and> moves (advance d (step (Click i) S)) = moves (step (Click i) S)
                  \<and> time (step (Click i) S) \<le> time (advance d (step (Click i) S)))
            \<and> winOverlay (advance 400 (step (Click i) S))
            \<and> \<not> ticking (advance 400 (step (Click i) S))
            \<and> finalMoves (advance 400 (step (Click i) S)) = moves (step (Click i) S)
            \<and> finalTime (advance 400 (step (Click i) S)) = time (advance 400 (step (Click i) S))
            \<and> time (step (Click i) S) \<le> time (advance 400 (step (Click i) S)))"
proof -
  from game_start_ok [OF assms(1)] assms(2) have "win_inv (createBoard rnd T)"
    by (intro win_inv_createBoard) simp_all
  then have inv: "win_inv S" unfolding assms(4) using assms(3) by (rule win_inv_exec)
  have a: "winOverlay S \<longrightarrow> all_matched S"
    using inv by (simp add: won_only_if_all_matched)
  have b: "all_matched S \<longrightarrow> winOverlay (advance 400 S)"
    using inv by (simp add: won_within_400)
  have c: "winOverlay S \<longrightarrow>
            \<not> ticking S \<and> finalMoves S = moves S \<and> finalTime S = time S
            \<and> (\<forall>es'. restart_free es' \<longrightarrow>
                  winOverlay (exec es' S) \<and> moves (exec es' S) = moves S
                  \<and> time (exec es' S) = time S \<and> finalMoves (exec es' S) = moves S
                  \<and> finalTime (exec es' S) = time S)"
  proof
    assume w: "winOverlay S"
    with inv have ws: "won_state S" by (simp add: win_inv_def)
    then have f: "\<not> ticking S" "finalMoves S = moves S" "finalTime S = time S"
      by (simp_all add: won_state_def)
    with won_is_frozen [OF inv w] show "\<not> ticking S \<and> finalMoves S = moves S
        \<and> finalTime S = time S
        \<and> (\<forall>es'. restart_free es' \<longrightarrow>
              winOverlay (exec es' S) \<and> moves (exec es' S) = moves S
              \<and> time (exec es' S) = time S \<and> finalMoves (exec es' S) = moves S
              \<and> finalTime (exec es' S) = time S)"
      by simp
  qed
  have d: "resolves_match S i \<and> matchedCount S + 2 = length (cards S) \<longrightarrow>
            (\<forall>d<400. \<not> winOverlay (advance d (step (Click i) S))
                  \<and> moves (advance d (step (Click i) S)) = moves (step (Click i) S)
                  \<and> time (step (Click i) S) \<le> time (advance d (step (Click i) S)))
            \<and> winOverlay (advance 400 (step (Click i) S))
            \<and> \<not> ticking (advance 400 (step (Click i) S))
            \<and> finalMoves (advance 400 (step (Click i) S)) = moves (step (Click i) S)
            \<and> finalTime (advance 400 (step (Click i) S)) = time (advance 400 (step (Click i) S))
            \<and> time (step (Click i) S) \<le> time (advance 400 (step (Click i) S))"
  proof
    assume h: "resolves_match S i \<and> matchedCount S + 2 = length (cards S)"
    define S' where "S' = step (Click i) S"
    let ?e = "\<lparr>tid = nextId (startTimer S), due = now S + 400, cb = EndGame\<rparr>"
    from h have rm: "resolves_match S i" and mc: "matchedCount S + 2 = length (cards S)"
      by simp_all
    note l = last_match_schedules_endGame [OF inv rm mc, folded S'_def]
    have n: "now S' = now S" by (simp add: S'_def)
    have fire: "\<not> winOverlay (advance k S') \<and> time S' \<le> time (advance k S')"
      if "k < 400" for k
      by (rule endGame_fires(1) [OF l(1) _ l(4) l(2) l(3)]) (use that in \<open>simp_all add: n\<close>)
    have "won_state (advance (due ?e - now S') S')
        \<and> time S' \<le> time (advance (due ?e - now S') S')"
      by (rule endGame_fires(2) [OF l(1) _ l(4) l(2) l(3)]) (simp_all add: n)
    then have w: "won_state (advance 400 S')" "time S' \<le> time (advance 400 S')"
      by (simp_all add: n)
    have "\<forall>d<400. \<not> winOverlay (advance d S') \<and> moves (advance d S') = moves S'
        \<and> time S' \<le> time (advance d S')"
      using fire by simp
    with w have "(\<forall>d<400. \<not> winOverlay (advance d S')
                  \<and> moves (advance d S') = moves S'
                  \<and> time S' \<le> time (advance d S'))
            \<and> winOverlay (advance 400 S') \<and> \<not> ticking (advance 400 S')
            \<and> finalMoves (advance 400 S') = moves S'
            \<and> finalTime (advance 400 S') = time (advance 400 S')
            \<and> time S' \<le> time (advance 400 S')"
      by (simp add: won_state_def)
    then show "(\<forall>d<400. \<not> winOverlay (advance d (step (Click i) S))
                  \<and> moves (advance d (step (Click i) S)) = moves (step (Click i) S)
                  \<and> time (step (Click i) S) \<le> time (advance d (step (Click i) S)))
            \<and> winOverlay (advance 400 (step (Click i) S))
            \<and> \<not> ticking (advance 400 (step (Click i) S))
            \<and> finalMoves (advance 400 (step (Click i) S)) = moves (step (Click i) S)
            \<and> finalTime (advance 400 (step (Click i) S)) = time (advance 400 (step (Click i) S))
            \<and> time (step (Click i) S) \<le> time (advance 400 (step (Click i) S))"
      unfolding S'_def .
  qed
  from a b c d show ?thesis by blast
qed

theorem won_after_last_match_witness:
  "none_pending is_endGame (exec [Click 0, Click 8, Click 1] (boot (\<lambda>k. 0)))
   \<and> restart_free [Click 0, Click 8, Click 1, Click 9, Click 2, Click 10, Click 3, Click 11,
      Click 4, Click 12, Click 5, Click 13, Click 6, Click 14, Click 7]
   \<and> resolves_match (exec [Click 0, Click 8, Click 1, Click 9, Click 2, Click 10, Click 3, Click 11,
      Click 4, Click 12, Click 5, Click 13, Click 6, Click 14, Click 7] (createBoard (\<lambda>k. 0) (exec [Click 0, Click 8, Click 1] (boot (\<lambda>k. 0))))) 15
   \<and> matchedCount (exec [Click 0, Click 8, Click 1, Click 9, Click 2, Click 10, Click 3, Click 11,
      Click 4, Click 12, Click 5, Click 13, Click 6, Click 14, Click 7] (createBoard (\<lambda>k. 0) (exec [Click 0, Click 8, Click 1] (boot (\<lambda>k. 0))))) + 2 = length (cards (exec [Click 0, Click 8, Click 1, Click 9, Click 2, Click 10, Click 3, Click 11,
      Click 4, Click 12, Click 5, Click 13, Click 6, Click 14, Click 7] (createBoard (\<lambda>k. 0) (exec [Click 0, Click 8, Click 1] (boot (\<lambda>k. 0))))))
   \<and> \<not> winOverlay (advance 399 (step (Click 15) (exec [Click 0, Click 8, Click 1, Click 9, Click 2, Click 10, Click 3, Click 11,
      Click 4, Click 12, Click 5, Click 13, Click 6, Click 14, Click 7] (createBoard (\<lambda>k. 0) (exec [Click 0, Click 8, Click 1] (boot (\<lambda>k. 0)))))))
   \<and> winOverlay (advance 400 (step (Click 15) (exec [Click 0, Click 8, Click 1, Click 9, Click 2, Click 10, Click 3, Click 11,
      Click 4, Click 12, Click 5, Click 13, Click 6, Click 14, Click 7] (createBoard (\<lambda>k. 0) (exec [Click 0, Click 8, Click 1] (boot (\<lambda>k. 0)))))))
   \<and> finalMoves (advance 400 (step (Click 15) (exec [Click 0, Click 8, Click 1, Click 9, Click 2, Click 10, Click 3, Click 11,
      Click 4, Click 12, Click 5, Click 13, Click 6, Click 14, Click 7] (createBoard (\<lambda>k. 0) (exec [Click 0, Click 8, Click 1] (boot (\<lambda>k. 0))))))) = 8"
proof -
  define S where "S = exec [Click 0, Click 8, Click 1, Click 9, Click 2, Click 10, Click 3, Click 11,
      Click 4, Click 12, Click 5, Click 13, Click 6, Click 14, Click 7] (createBoard (\<lambda>k. 0) (exec [Click 0, Click 8, Click 1] (boot (\<lambda>k. 0))))"
  have t: "exec [Click 0, Click 8, Click 1] (boot (\<lambda>k. 0)) = init
      \<or> exec [Click 0, Click 8, Click 1] (boot (\<lambda>k. 0)) =
          exec [Click 0, Click 8, Click 1] (boot (\<lambda>k. 0))"
    by simp
  have n: "none_pending is_endGame (exec [Click 0, Click 8, Click 1] (boot (\<lambda>k. 0)))"
    by code_simp
  have r: "restart_free [Click 0, Click 8, Click 1, Click 9, Click 2, Click 10, Click 3, Click 11,
      Click 4, Click 12, Click 5, Click 13, Click 6, Click 14, Click 7]"
    by (simp add: restart_free_def)
  have h: "resolves_match S 15" "matchedCount S + 2 = length (cards S)"
    and m: "moves (step (Click 15) S) = 8"
    unfolding S_def by code_simp+
  from won_after_last_match [OF t n r S_def, of 15] h
  have "(\<forall>d<400. \<not> winOverlay (advance d (step (Click 15) S)))
      \<and> winOverlay (advance 400 (step (Click 15) S))
      \<and> finalMoves (advance 400 (step (Click 15) S)) = moves (step (Click 15) S)"
    by blast
  then have "\<not> winOverlay (advance 399 (step (Click 15) S))
      \<and> winOverlay (advance 400 (step (Click 15) S))
      \<and> finalMoves (advance 400 (step (Click 15) S)) = 8"
    by (simp only: m) simp
  with n r h show ?thesis unfolding S_def by blast
qed

text \<open>
  The delay before \<open>endGame\<close> does affect a counter. Here the first click is at time 0, so
  the interval callback is due at 1000 ms; the last pair is completed at 700 ms, when
  \<open>time\<close> is still 0; \<open>endGame\<close> runs at 1100 ms, after the callback has counted one
  second, and records 1 as the final time.
\<close>

theorem seconds_advance_during_win_delay:
  "all_matched (exec ([Click 0, Click 8, Click 1, Click 9, Click 2, Click 10, Click 3, Click 11,
      Click 4, Click 12, Click 5, Click 13, Click 6, Click 14, Click 7] @ [Wait 700, Click 15]) (boot (\<lambda>k. 0)))
   \<and> \<not> winOverlay (exec ([Click 0, Click 8, Click 1, Click 9, Click 2, Click 10, Click 3, Click 11,
      Click 4, Click 12, Click 5, Click 13, Click 6, Click 14, Click 7] @ [Wait 700, Click 15]) (boot (\<lambda>k. 0)))
   \<and> time (exec ([Click 0, Click 8, Click 1, Click 9, Click 2, Click 10, Click 3, Click 11,
      Click 4, Click 12, Click 5, Click 13, Click 6, Click 14, Click 7] @ [Wait 700, Click 15]) (boot (\<lambda>k. 0))) = 0
   \<and> winOverlay (exec ([Click 0, Click 8, Click 1, Click 9, Click 2, Click 10, Click 3, Click 11,
      Click 4, Click 12, Click 5, Click 13, Click 6, Click 14, Click 7] @ [Wait 700, Click 15, Wait 400]) (boot (\<lambda>k. 0)))
   \<and> time (exec ([Click 0, Click 8, Click 1, Click 9, Click 2, Click 10, Click 3, Click 11,
      Click 4, Click 12, Click 5, Click 13, Click 6, Click 14, Click 7] @ [Wait 700, Click 15, Wait 400]) (boot (\<lambda>k. 0))) = 1
   \<and> finalTime (exec ([Click 0, Click 8, Click 1, Click 9, Click 2, Click 10, Click 3, Click 11,
      Click 4, Click 12, Click 5, Click 13, Click 6, Click 14, Click 7] @ [Wait 700, Click 15, Wait 400]) (boot (\<lambda>k. 0))) = 1
   \<and> finalTime (exec ([Click 0, Click 8, Click 1, Click 9, Click 2, Click 10, Click 3, Click 11,
      Click 4, Click 12, Click 5, Click 13, Click 6, Click 14, Click 7] @ [Wait 700, Click 15, Wait 400]) (boot (\<lambda>k. 0)))
       \<noteq> time (exec ([Click 0, Click 8, Click 1, Click 9, Click 2, Click 10, Click 3, Click 11,
      Click 4, Click 12, Click 5, Click 13, Click 6, Click 14, Click 7] @ [Wait 700, Click 15]) (boot (\<lambda>k. 0)))"
proof -
  define s0 where "s0 = exec [Click 0, Click 8, Click 1, Click 9, Click 2, Click 10, Click 3, Click 11,
      Click 4, Click 12, Click 5, Click 13, Click 6, Click 14, Click 7] (boot (\<lambda>k. 0))"
  define s1 where "s1 = step (Click 15) (s0\<lparr>now := now s0 + 700\<rparr>)"
  define s2 where "s2 = ms_step (s1\<lparr>now := now s1 + 299\<rparr>)"
  define s3 where "s3 = ms_step (s2\<lparr>now := now s2 + 99\<rparr>)"
  note defs = s3_def s2_def s1_def s0_def
  have w0: "advance 700 s0 = s0\<lparr>now := now s0 + 700\<rparr>"
    by (rule advance_idle) (unfold defs, code_simp)
  have w1: "advance 300 s1 = s2"
    unfolding s2_def by (rule advance_then_fire; (unfold defs)?; code_simp)
  have w2: "advance 100 s2 = s3"
    unfolding s3_def by (rule advance_then_fire; (unfold defs)?; code_simp)
  have "advance 400 s1 = advance 100 (advance 300 s1)"
    using advance_add [of 300 100 s1] by simp
  then have w3: "advance 400 s1 = s3" by (simp only: w1 w2)
  have a: "exec ([Click 0, Click 8, Click 1, Click 9, Click 2, Click 10, Click 3, Click 11,
      Click 4, Click 12, Click 5, Click 13, Click 6, Click 14, Click 7] @ [Wait 700, Click 15]) (boot (\<lambda>k. 0)) = s1"
  proof -
    have "exec ([Click 0, Click 8, Click 1, Click 9, Click 2, Click 10, Click 3, Click 11,
      Click 4, Click 12, Click 5, Click 13, Click 6, Click 14, Click 7] @ [Wait 700, Click 15]) (boot (\<lambda>k. 0)) = exec [Wait 700, Click 15] s0"
      by (simp only: exec_append s0_def)
    also have "\<dots> = s1" by (simp only: exec.simps step.simps(3) w0 s1_def)
    finally show ?thesis .
  qed
  have b: "exec ([Click 0, Click 8, Click 1, Click 9, Click 2, Click 10, Click 3, Click 11,
      Click 4, Click 12, Click 5, Click 13, Click 6, Click 14, Click 7] @ [Wait 700, Click 15, Wait 400]) (boot (\<lambda>k. 0)) = s3"
  proof -
    have "exec ([Click 0, Click 8, Click 1, Click 9, Click 2, Click 10, Click 3, Click 11,
      Click 4, Click 12, Click 5, Click 13, Click 6, Click 14, Click 7] @ [Wait 700, Click 15, Wait 400]) (boot (\<lambda>k. 0)) =
        exec [Wait 700, Click 15, Wait 400] s0"
      by (simp only: exec_append s0_def)
    also have "\<dots> = advance 400 (step (Click 15) (advance 700 s0))"
      by (simp only: exec.simps step.simps(3))
    also have "\<dots> = s3" by (simp only: w0 w3 s1_def [symmetric])
    finally show ?thesis .
  qed
  have "all_matched s1" "\<not> winOverlay s1" "time s1 = 0" "winOverlay s3" "time s3 = 1"
    "finalTime s3 = 1"
    unfolding defs by code_simp+
  then show ?thesis unfolding a b by simp
qed

section \<open>The turn within one game\<close>

lemma none_pending_revert_checkForMatch_match:
  "none_pending is_revert s \<Longrightarrow> none_pending is_revert (handleMatch card1 card2 s)"
  by (simp add: handleMatch_def Let_def resetTurn_def add_matched_def none_pending_def
        setTimeout_def)

lemma status_Revealed: "(status_of x = Revealed) = (flipped x \<and> \<not> matched x)"
  by (simp add: status_of_def)

lemma turn_inv_flipCard:
  assumes "turn_inv s" and "c \<in> set (cards s)"
  shows "turn_inv (flipCard c s)"
proof (cases "lockBoard s \<or> flipped (heap s c) \<or> matched (heap s c)")
  case True
  with assms(1) show ?thesis by (simp add: flipCard_ignored)
next
  case False
  define u where "u = flipCard c s"
  from assms(1) False have base: "count_inv s" "timers_ok s"
    and rev: "\<forall>a \<in> set (cards s). flipped (heap s a) \<and> \<not> matched (heap s a)
                \<longrightarrow> a \<in> set (flippedCards s)"
    and len: "length (flippedCards s) \<le> 1" and nr: "none_pending is_revert s"
    by (auto simp: turn_inv_def list_all_iff status_Revealed)
  have u: "count_inv u" "timers_ok u" "cards u = cards s"
    using base assms(2)
    by (simp_all add: u_def count_inv_flipCard timers_ok_flipCard cards_flipCard)
  let ?s3 = "(add_flipped c (startTimer s))\<lparr>flippedCards := flippedCards s @ [c]\<rparr>"
  let ?s4 = "?s3\<lparr>moves := moves ?s3 + 1, movesEl := moves ?s3 + 1, lockBoard := True\<rparr>"
  have flip: "u = (if length (flippedCards s) = 1 then checkForMatch
      (?s3\<lparr>moves := moves ?s3 + 1, movesEl := moves ?s3 + 1\<rparr>) else ?s3)"
    using False
    by (simp add: u_def flipCard_def Let_def add_flipped_def startTimer_def setInterval_def setTimeout_def)
  have s4: "timers_ok ?s4" "none_pending is_revert ?s4"
    using base(2) nr
    by (simp_all add: add_flipped_def none_pending_startTimer timers_ok_startTimer)
  show "turn_inv (flipCard c s)" unfolding u_def [symmetric]
  proof (cases "flippedCards s")
    case Nil
    with flip have eq: "u = ?s3" by simp
    have "\<And>a. flipped (heap u a) = (a = c \<or> flipped (heap s a))"
      "\<And>a. matched (heap u a) = matched (heap s a)"
      "flippedCards u = [c]" "\<not> lockBoard u" "none_pending is_revert u"
      using False nr Nil unfolding eq
      by (simp_all add: add_flipped_def none_pending_startTimer)
         (simp_all add: startTimer_def setInterval_def setTimeout_def)
    with u rev Nil show "turn_inv u"
      by (auto simp: turn_inv_def list_all_iff status_Revealed)
  next
    case (Cons card1 rest)
    with len have fl: "flippedCards s = [card1]" by simp
    show "turn_inv u"
    proof (cases "icon (heap ?s4 card1) = icon (heap ?s4 c)")
      case True
      then have eq: "u = handleMatch card1 c ?s4"
        using flip fl by (simp add: checkForMatch_def)
      have "\<And>a. matched (heap u a) = (a = card1 \<or> a = c \<or> matched (heap s a))"
        "\<And>a. flipped (heap u a) = (a = c \<or> flipped (heap s a))"
        "flippedCards u = []" "\<not> lockBoard u"
        unfolding eq
        by (auto simp: handleMatch_def Let_def resetTurn_def add_matched_def setTimeout_def
              add_flipped_def startTimer_def setInterval_def)
      moreover have "none_pending is_revert u"
        unfolding eq using s4(2) by (rule none_pending_revert_checkForMatch_match)
      ultimately show ?thesis using u rev fl
        by (auto simp: turn_inv_def list_all_iff status_Revealed)
    next
      case False
      let ?e = "\<lparr>tid = nextId ?s4, due = now ?s4 + 900, cb = Revert card1 c\<rparr>"
      from False have eq: "u = setTimeout (Revert card1 c) 900 ?s4"
        using flip fl by (simp add: checkForMatch_def handleMismatch_def)
      have sole: "sole_timeout is_revert ?e u"
        unfolding eq using s4(1,2) by (intro sole_timeout_setTimeout) simp_all
      then have "?e \<in> set (pending u)" by (simp add: sole_timeout_def)
      with sole have "list_ex (\<lambda>e. sole_timeout is_revert e u \<and> cb e = Revert card1 c)
          (pending u)"
        unfolding list_ex_iff by (intro bexI [of _ ?e]) simp_all
      moreover have "\<And>a. flipped (heap u a) = (a = c \<or> flipped (heap s a))"
        "\<And>a. matched (heap u a) = matched (heap s a)"
        "flippedCards u = [card1, c]" "lockBoard u"
        unfolding eq by (simp_all add: setTimeout_def add_flipped_def startTimer_def setInterval_def fl)
      ultimately show ?thesis using u rev fl
        by (auto simp: turn_inv_def list_all_iff status_Revealed)
    qed
  qed
qed

lemma turn_invI:
  assumes "count_inv u" and "timers_ok u"
    and "\<And>a. a \<in> set (cards u) \<Longrightarrow> flipped (heap u a) \<Longrightarrow> \<not> matched (heap u a) \<Longrightarrow>
           a \<in> set (flippedCards u)"
    and "if lockBoard u
         then (case flippedCards u of
                 [card1, card2] \<Rightarrow>
                   list_ex (\<lambda>e. sole_timeout is_revert e u \<and> cb e = Revert card1 card2)
                     (pending u)
               | _ \<Rightarrow> False)
         else length (flippedCards u) \<le> 1 \<and> none_pending is_revert u"
  shows "turn_inv u"
  unfolding turn_inv_def list_all_iff status_Revealed using assms by blast

lemma turn_inv_ms_step:
  assumes "turn_inv s"
  shows "turn_inv (ms_step s)"
proof -
  define u where "u = ms_step s"
  from assms have base: "count_inv s" "timers_ok s"
    and rev: "\<And>a. a \<in> set (cards s) \<Longrightarrow> flipped (heap s a) \<Longrightarrow> \<not> matched (heap s a) \<Longrightarrow>
                a \<in> set (flippedCards s)"
    by (auto simp: turn_inv_def list_all_iff status_Revealed)
  have u: "count_inv u" "timers_ok u"
    and cu: "cards u = cards s" and mu: "\<And>a. matched (heap u a) = matched (heap s a)"
    using count_inv_advance [OF base(1), of 1] timers_ok_advance [OF base(2), of 1]
      advance_fields(1) [of 1 s] advance_heap(1) [of 1 s]
    by (simp_all add: u_def)
  show "turn_inv (ms_step s)" unfolding u_def [symmetric]
  proof (cases "lockBoard s")
    case False
    let ?P = "\<lambda>v. heap v = heap s \<and> lockBoard v = lockBoard s
                  \<and> flippedCards v = flippedCards s \<and> none_pending is_revert v"
    from assms False have "?P s" and len: "length (flippedCards s) \<le> 1"
      by (simp_all add: turn_inv_def)
    then have "?P u" unfolding u_def
    proof (intro ms_step_induct [where P = ?P])
      fix t v assume v: "?P v" "t \<in> set (pending v)"
      then have "\<not> is_revert (cb t)" by (auto simp: none_pending_def list_all_iff)
      with v show "?P (run_cb t v)" by (simp add: run_cb_not_revert none_pending_run_cb)
    qed simp
    then have p: "heap u = heap s" "\<not> lockBoard u" "flippedCards u = flippedCards s"
      "none_pending is_revert u"
      using False by simp_all
    show "turn_inv u"
    proof (rule turn_invI [OF u])
      fix a assume "a \<in> set (cards u)" "flipped (heap u a)" "\<not> matched (heap u a)"
      then show "a \<in> set (flippedCards u)" using rev [of a] by (simp add: p cu)
    next
      show "if lockBoard u
         then (case flippedCards u of
                 [card1, card2] \<Rightarrow>
                   list_ex (\<lambda>e. sole_timeout is_revert e u \<and> cb e = Revert card1 card2)
                     (pending u)
               | _ \<Rightarrow> False)
         else length (flippedCards u) \<le> 1 \<and> none_pending is_revert u"
        using p len by simp
    qed
  next
    case True
    with assms obtain card1 card2 e where fl: "flippedCards s = [card1, card2]"
      and e: "sole_timeout is_revert e s" "cb e = Revert card1 card2"
      by (auto simp: turn_inv_def list_ex_iff split: list.splits)
    let ?P = "\<lambda>v. heap v = heap s \<and> lockBoard v \<and> flippedCards v = [card1, card2]"
    let ?Q = "\<lambda>v. (\<forall>a. flipped (heap v a) = (a \<noteq> card1 \<and> a \<noteq> card2 \<and> flipped (heap s a)))
                  \<and> \<not> lockBoard v \<and> flippedCards v = [] \<and> none_pending is_revert v"
    have P0: "?P s" using True fl by simp
    have clock: "?P (v\<lparr>now := now v + 1\<rparr>)" if "?P v" for v using that by simp
    have keep: "?P (run_cb t v)" if "?P v" "\<not> is_revert (cb t)" for t v
      using that by (simp add: run_cb_not_revert)
    show "turn_inv u"
    proof (cases "now s + 1 < due e")
      case True
      have "sole_timeout is_revert e (ms_step s) \<and> ?P (ms_step s)"
        using e(1) P0 True clock keep by (rule ms_step_before [where P = ?P])
      then have after: "sole_timeout is_revert e u"
        and p: "heap u = heap s" "lockBoard u" "flippedCards u = [card1, card2]"
        unfolding u_def by blast+
      then have "e \<in> set (pending u)" by (simp add: sole_timeout_def)
      with after e(2)
      have ex: "list_ex (\<lambda>e. sole_timeout is_revert e u \<and> cb e = Revert card1 card2)
          (pending u)"
        unfolding list_ex_iff by (intro bexI [of _ e]) simp_all
      show ?thesis
      proof (rule turn_invI [OF u])
        fix a assume "a \<in> set (cards u)" "flipped (heap u a)" "\<not> matched (heap u a)"
        then show "a \<in> set (flippedCards u)" using rev [of a] by (simp add: p cu fl)
      next
        show "if lockBoard u
         then (case flippedCards u of
                 [card1, card2] \<Rightarrow>
                   list_ex (\<lambda>e. sole_timeout is_revert e u \<and> cb e = Revert card1 card2)
                     (pending u)
               | _ \<Rightarrow> False)
         else length (flippedCards u) \<le> 1 \<and> none_pending is_revert u"
          using p ex by simp
      qed
    next
      case False
      then have d: "due e \<le> now s + 1" by simp
      have "?Q u" unfolding u_def
      proof (rule ms_step_at [where K = is_revert and e = e and P = ?P and Q = ?Q,
            OF e(1) P0 d clock keep])
        fix v assume v: "sole_timeout is_revert e v" "?P v"
        have "run_cb e v = revert_cb card1 card2
            (v\<lparr>pending := filter (\<lambda>u. tid u \<noteq> tid e) (pending v)\<rparr>)"
          by (simp add: run_cb_def e(2))
        with none_pending_after [OF v(1)] v(2) show "?Q (run_cb e v)"
          by (simp add: revert_cb_def resetTurn_def remove_flipped_def none_pending_def)
      next
        fix t v assume v: "?Q v" "t \<in> set (pending v)"
        then have "\<not> is_revert (cb t)" by (auto simp: none_pending_def list_all_iff)
        with v(1) show "?Q (run_cb t v)"
          by (simp add: run_cb_not_revert none_pending_run_cb)
      qed
      then have q: "\<And>a. flipped (heap u a) = (a \<noteq> card1 \<and> a \<noteq> card2 \<and> flipped (heap s a))"
        "\<not> lockBoard u" "flippedCards u = []" "none_pending is_revert u"
        by simp_all
      show ?thesis
      proof (rule turn_invI [OF u])
        fix a assume "a \<in> set (cards u)" "flipped (heap u a)" "\<not> matched (heap u a)"
        then have "a \<in> set (flippedCards s)" "a \<noteq> card1" "a \<noteq> card2"
          using rev [of a] by (simp_all add: q mu cu)
        then show "a \<in> set (flippedCards u)" by (simp add: fl)
      next
        show "if lockBoard u
         then (case flippedCards u of
                 [card1, card2] \<Rightarrow>
                   list_ex (\<lambda>e. sole_timeout is_revert e u \<and> cb e = Revert card1 card2)
                     (pending u)
               | _ \<Rightarrow> False)
         else length (flippedCards u) \<le> 1 \<and> none_pending is_revert u"
          using q by simp
      qed
    qed
  qed
qed

lemma turn_inv_advance: "turn_inv s \<Longrightarrow> turn_inv (advance d s)"
  by (induction d arbitrary: s) (simp_all add: turn_inv_ms_step)

lemma turn_inv_step: "turn_inv s \<Longrightarrow> \<not> is_restart e \<Longrightarrow> turn_inv (step e s)"
  by (cases e) (simp_all add: turn_inv_flipCard turn_inv_advance)

lemma turn_inv_exec: "turn_inv s \<Longrightarrow> restart_free es \<Longrightarrow> turn_inv (exec es s)"
  by (induction es arbitrary: s) (simp_all add: turn_inv_step restart_free_def)

lemma turn_inv_boot: "turn_inv (boot rnd)"
proof -
  have "timers_ok (boot rnd)"
    unfolding boot_def by (rule timers_ok_createBoard) (simp add: timers_ok_def init_def)
  moreover have "none_pending is_revert (boot rnd)"
    by (simp add: none_pending_def boot_def createBoard_pending init_def)
  ultimately show ?thesis
    by (simp add: turn_inv_def boot_def count_inv_createBoard list_all_iff
          createBoard_new_cards status_Revealed)
qed

text \<open>
  Without a restart the invariant that C1 asks for does hold: at most two tiles of the
  board are revealed and unmatched. The run of C1 above needs the restart.
\<close>

lemma at_most_two_revealed_in_a_game:
  assumes "restart_free es"
  shows "length (revealed_tiles (exec es (boot rnd))) \<le> 2"
proof -
  let ?s = "exec es (boot rnd)"
  have inv: "turn_inv ?s" by (rule turn_inv_exec [OF turn_inv_boot assms])
  then have sub: "set (revealed_tiles ?s) \<subseteq> set (flippedCards ?s)"
    and d: "distinct (revealed_tiles ?s)"
    by (auto simp: turn_inv_def revealed_tiles_def list_all_iff count_inv_def)
  from inv have "length (flippedCards ?s) \<le> 2"
    by (auto simp: turn_inv_def split: if_splits list.splits)
  moreover have "length (revealed_tiles ?s) = card (set (revealed_tiles ?s))"
    using d by (simp add: distinct_card)
  moreover have "card (set (revealed_tiles ?s)) \<le> card (set (flippedCards ?s))"
    using sub by (intro card_mono) simp_all
  moreover have "card (set (flippedCards ?s)) \<le> length (flippedCards ?s)"
    by (rule card_length)
  ultimately show ?thesis by linarith
qed

text \<open>
  Likewise the preconditions of the cool-down lemma hold in every state of a game in
  which the board is not locked.
\<close>

lemma no_reversion_outstanding_in_a_game:
  assumes "restart_free es" and "\<not> lockBoard (exec es (boot rnd))"
  shows "none_pending is_revert (exec es (boot rnd)) \<and> timers_ok (exec es (boot rnd))
       \<and> list_all (\<lambda>c. status_of (heap (exec es (boot rnd)) c) = Revealed)
            (flippedCards (exec es (boot rnd)))"
  using turn_inv_exec [OF turn_inv_boot assms(1), of rnd] assms(2)
  by (auto simp: turn_inv_def count_inv_def list_all_iff status_Revealed)

end
